theory Spec2Isabelle
  imports Main "HOL-Library.Word" "HOL-Library.Tree" "HOL-Library.Code_Target_Numeral"
begin

unbundle bit_operations_syntax

section \<open>Constants of the wire format (lzss.h)\<close>

type_synonym byte = "8 word"
type_synonym u32 = "32 word"

definition INDEX_BIT_COUNT :: nat where "INDEX_BIT_COUNT = 12"
definition LENGTH_BIT_COUNT :: nat where "LENGTH_BIT_COUNT = 4"
definition WINDOW_SIZE :: nat where "WINDOW_SIZE = 2 ^ INDEX_BIT_COUNT"
definition BREAK_EVEN :: nat where "BREAK_EVEN = 2"
definition END_OF_STREAM :: nat where "END_OF_STREAM = 0"
definition LOOK_AHEAD_SIZE :: nat where "LOOK_AHEAD_SIZE = 2 ^ LENGTH_BIT_COUNT + BREAK_EVEN"
definition TREE_ROOT :: nat where "TREE_ROOT = WINDOW_SIZE"
definition UNUSED :: nat where "UNUSED = 0"

text \<open>\<open>MOD_WINDOW(a)\<close> is \<open>a & (WINDOW_SIZE - 1)\<close>; on unsigned values this is the
  remainder modulo 4096, also after a 32-bit wrap-around, since 4096 divides \<open>2 ^ 32\<close>.\<close>

definition MOD_WINDOW :: "nat \<Rightarrow> nat" where
  "MOD_WINDOW a = a mod WINDOW_SIZE"

text \<open>The result codes of errors.hpp that the codec returns.\<close>

datatype error = COMP_ERR_BADPTR | COMP_ERR_NOMEM | COMP_ERR_OVERFLOW
  | COMP_ERR_DATAREMAINS | COMP_ERR_DATAMISSING

text \<open>Modelled from the spec: byteswap.hpp is not among the sources. Every word that
  crosses the sink or the input stream goes through \<open>byteswap_if_little_endian\<close>, which
  reverses the four bytes of the word exactly when the host is little-endian. The host's
  byte order is the parameter \<open>le\<close> of every operation below.\<close>

definition byteswap32 :: "u32 \<Rightarrow> u32" where
  "byteswap32 w = push_bit 24 (ucast (ucast w :: byte))
      OR push_bit 16 (ucast (ucast (drop_bit 8 w) :: byte))
      OR push_bit 8 (ucast (ucast (drop_bit 16 w) :: byte))
      OR ucast (ucast (drop_bit 24 w) :: byte)"

definition byteswap_if_little_endian :: "bool \<Rightarrow> u32 \<Rightarrow> u32" where
  "byteswap_if_little_endian le w = (if le then byteswap32 w else w)"

section \<open>The bit reader of decompress.cpp\<close>

text \<open>\<open>bs_Data\<close> and \<open>bs_NumDataWords\<close> together are the list of the words not yet
  fetched: \<open>bs_NumDataWords\<close> is its length, \<open>*bs_Data++\<close> takes its head.\<close>

record DecompressBitStream =
  bs_Data :: "u32 list"
  bs_BitsLeft :: nat
  bs_BitBuffer :: u32
  bs_Error :: bool

definition InitBitStream_d :: "DecompressBitStream \<Rightarrow> DecompressBitStream" where
  "InitBitStream_d bs = bs\<lparr>bs_BitsLeft := 0, bs_BitBuffer := 0, bs_Error := False\<rparr>"

definition FeedBitStream :: "DecompressBitStream \<Rightarrow> u32 list \<Rightarrow> DecompressBitStream" where
  "FeedBitStream bs dat = bs\<lparr>bs_Data := dat\<rparr>"

text \<open>The tail of \<open>ReadBits\<close>, after the refill:
  \<open>bs_BitsLeft -= numBits; result |= (bs_BitBuffer >> bs_BitsLeft) & ((1 << numBits) - 1)\<close>.\<close>

definition ReadBits_take :: "DecompressBitStream \<Rightarrow> u32 \<Rightarrow> nat \<Rightarrow> u32 \<times> DecompressBitStream" where
  "ReadBits_take bs result numBits =
     (let bl = bs_BitsLeft bs - numBits
      in (result OR (drop_bit bl (bs_BitBuffer bs) AND mask numBits), bs\<lparr>bs_BitsLeft := bl\<rparr>))"

text \<open>\<open>ReadBits\<close> is called with 1, 8, 12 and 4 bits; the model is the C function for
  \<open>numBits \<le> 32\<close> (beyond that the C shifts are undefined).\<close>

definition ReadBits :: "bool \<Rightarrow> DecompressBitStream \<Rightarrow> nat \<Rightarrow> u32 \<times> DecompressBitStream" where
  "ReadBits le bs numBits =
     (if numBits > bs_BitsLeft bs then
        (let result = (if bs_BitsLeft bs \<noteq> 0
                       then push_bit (numBits - bs_BitsLeft bs) (bs_BitBuffer bs) AND mask numBits
                       else 0);
             numBits' = (if bs_BitsLeft bs \<noteq> 0 then numBits - bs_BitsLeft bs else numBits)
         in case bs_Data bs of
              [] \<Rightarrow> (0, bs\<lparr>bs_Error := True\<rparr>)
            | w # ws \<Rightarrow>
                ReadBits_take
                  (bs\<lparr>bs_Data := ws, bs_BitBuffer := byteswap_if_little_endian le w,
                      bs_BitsLeft := 32\<rparr>) result numBits')
      else ReadBits_take bs 0 numBits)"


section \<open>The decoder of decompress.cpp\<close>

text \<open>The sink \<open>dh_OutputWord\<close> is modelled by \<open>dh_Output\<close>, the list of the words handed
  to it so far, oldest first. \<open>dh_Cookie\<close> says whether the cookie still is the instance's
  own address.\<close>

record Decompressor =
  dh_Output :: "u32 list"
  dh_WordBuffer :: u32
  dh_BytesLeft :: nat
  dh_Pos :: nat
  dh_Window :: "nat \<Rightarrow> byte"
  dh_BitStream :: DecompressBitStream
  dh_AllocatedStructure :: bool
  dh_Cookie :: bool

text \<open>The block that both branches of the token loop run for a decoded byte \<open>c\<close>: push it
  into the word under assembly (flushing the previous word first when it is complete),
  store it in the window and advance \<open>pos\<close>.\<close>

definition OutputByte :: "bool \<Rightarrow> u32 \<Rightarrow> Decompressor \<Rightarrow> Decompressor" where
  "OutputByte le c d =
     (let d1 = (if dh_BytesLeft d = 0
                then d\<lparr>dh_Output := dh_Output d @ [byteswap_if_little_endian le (dh_WordBuffer d)],
                       dh_WordBuffer := c, dh_BytesLeft := 3\<rparr>
                else d\<lparr>dh_WordBuffer := push_bit 8 (dh_WordBuffer d) OR c,
                       dh_BytesLeft := dh_BytesLeft d - 1\<rparr>)
      in d1\<lparr>dh_Window := (dh_Window d1)(dh_Pos d1 := ucast c),
             dh_Pos := MOD_WINDOW (dh_Pos d1 + 1)\<rparr>)"

text \<open>\<open>for (i = matchPos; i <= matchLen + matchPos; i++)\<close>: the first argument counts the
  iterations still to run, \<open>matchLen + 1\<close> at the start.\<close>

fun CopyMatch :: "bool \<Rightarrow> nat \<Rightarrow> nat \<Rightarrow> Decompressor \<Rightarrow> Decompressor" where
  "CopyMatch le 0 i d = d"
| "CopyMatch le (Suc n) i d =
     CopyMatch le n (i + 1) (OutputByte le (ucast (dh_Window d (MOD_WINDOW i))) d)"

lemma ReadBits_measure:
  "32 * length (bs_Data (snd (ReadBits le bs n))) + bs_BitsLeft (snd (ReadBits le bs n))
     \<le> 32 * length (bs_Data bs) + bs_BitsLeft bs"
  by (auto simp: ReadBits_def ReadBits_take_def Let_def split: list.splits)

lemma ReadBits_measure_1:
  "bs_Data bs \<noteq> [] \<Longrightarrow>
   32 * length (bs_Data (snd (ReadBits le bs 1))) + bs_BitsLeft (snd (ReadBits le bs 1))
     < 32 * length (bs_Data bs) + bs_BitsLeft bs"
  by (auto simp: ReadBits_def ReadBits_take_def Let_def split: list.splits)

lemma OutputByte_BitStream [simp]: "dh_BitStream (OutputByte le c d) = dh_BitStream d"
  by (simp add: OutputByte_def Let_def)

lemma CopyMatch_BitStream [simp]: "dh_BitStream (CopyMatch le n i d) = dh_BitStream d"
  by (induction n arbitrary: i d) simp_all

text \<open>The token loop \<open>while (bs->bs_NumDataWords)\<close> of \<open>internalFeedDecompressor\<close>. It
  stops when no unfetched word is left, or at \<open>break\<close> when the 12-bit offset read is
  \<open>END_OF_STREAM\<close>.\<close>

function TokenLoop :: "bool \<Rightarrow> Decompressor \<Rightarrow> Decompressor" where
  "TokenLoop le d =
     (if bs_Data (dh_BitStream d) = [] then d
      else
        let r1 = ReadBits le (dh_BitStream d) 1 in
        if fst r1 \<noteq> 0 then
          let r2 = ReadBits le (snd r1) 8
          in TokenLoop le (OutputByte le (fst r2) (d\<lparr>dh_BitStream := snd r2\<rparr>))
        else
          let r2 = ReadBits le (snd r1) INDEX_BIT_COUNT in
          if unat (fst r2) = END_OF_STREAM then d\<lparr>dh_BitStream := snd r2\<rparr>
          else
            let r3 = ReadBits le (snd r2) LENGTH_BIT_COUNT;
                matchLen = unat (fst r3) + BREAK_EVEN
            in TokenLoop le
                 (CopyMatch le (matchLen + 1) (unat (fst r2)) (d\<lparr>dh_BitStream := snd r3\<rparr>)))"
  by pat_completeness auto
termination
proof (relation "measure (\<lambda>(le, d). 32 * length (bs_Data (dh_BitStream d))
                                      + bs_BitsLeft (dh_BitStream d))", goal_cases)
  case 1
  show ?case by simp
next
  case (2 le d r1 r2)
  then show ?case
    using ReadBits_measure_1 [of "dh_BitStream d" le] ReadBits_measure [of le "snd r1" 8]
    by simp
next
  case (3 le d r1 r2 r3 matchLen)
  then show ?case
    using ReadBits_measure_1 [of "dh_BitStream d" le]
      ReadBits_measure [of le "snd r1" INDEX_BIT_COUNT]
      ReadBits_measure [of le "snd r2" LENGTH_BIT_COUNT]
    by simp
qed

declare TokenLoop.simps [simp del]

definition internalFeedDecompressor :: "bool \<Rightarrow> Decompressor \<Rightarrow> u32 list \<Rightarrow> Decompressor" where
  "internalFeedDecompressor le d dat =
     TokenLoop le (d\<lparr>dh_BitStream := FeedBitStream (dh_BitStream d) dat\<rparr>)"

text \<open>\<open>FeedDecompressor\<close> returns an error code or 0; the model returns the error or the
  instance after the call.\<close>

definition FeedDecompressor :: "bool \<Rightarrow> Decompressor \<Rightarrow> u32 list \<Rightarrow> error + Decompressor" where
  "FeedDecompressor le d dat =
     (if \<not> dh_Cookie d then Inl COMP_ERR_BADPTR else Inr (internalFeedDecompressor le d dat))"

text \<open>\<open>CreateDecompressor\<close> builds the instance in \<open>buf\<close>, the caller's work buffer or the
  block that \<open>calloc\<close> returned; the fields it does not assign keep what \<open>buf\<close> held. The
  null checks on the arguments and the failure of \<open>calloc\<close>, which return
  \<open>COMP_ERR_BADPTR\<close> and \<open>COMP_ERR_NOMEM\<close> before anything is built, are outside the model.\<close>

definition CreateDecompressor :: "Decompressor \<Rightarrow> bool \<Rightarrow> Decompressor" where
  "CreateDecompressor buf allocated =
     buf\<lparr>dh_Output := [], dh_WordBuffer := 0, dh_BytesLeft := 4, dh_Pos := 1,
         dh_Cookie := True, dh_AllocatedStructure := allocated,
         dh_BitStream := InitBitStream_d (dh_BitStream buf)\<rparr>"

text \<open>The block that \<open>calloc(1, sizeof(Decompressor))\<close> returns: all bytes zero.\<close>

definition calloc_Decompressor :: Decompressor where
  "calloc_Decompressor =
     \<lparr>dh_Output = [], dh_WordBuffer = 0, dh_BytesLeft = 0, dh_Pos = 0, dh_Window = (\<lambda>_. 0),
      dh_BitStream = \<lparr>bs_Data = [], bs_BitsLeft = 0, bs_BitBuffer = 0, bs_Error = False\<rparr>,
      dh_AllocatedStructure = False, dh_Cookie = False\<rparr>"

text \<open>\<open>DeleteDecompressor\<close>: the result code (\<open>None\<close> for 0) and the instance, whose
  \<open>dh_Output\<close> holds everything the sink received.\<close>

definition DeleteDecompressor :: "bool \<Rightarrow> Decompressor \<Rightarrow> error option \<times> Decompressor" where
  "DeleteDecompressor le d =
     (if \<not> dh_Cookie d then (Some COMP_ERR_BADPTR, d)
      else
        let d1 = d\<lparr>dh_Cookie := False\<rparr>;
            d2 = (if dh_BytesLeft d1 = 0
                  then d1\<lparr>dh_Output := dh_Output d1 @ [byteswap_if_little_endian le (dh_WordBuffer d1)]\<rparr>
                  else d1);
            result1 = (if bs_Data (dh_BitStream d2) \<noteq> [] then Some COMP_ERR_DATAREMAINS else None);
            result2 = (if bs_Error (dh_BitStream d2) then Some COMP_ERR_DATAMISSING else result1)
        in (result2, d2))"

text \<open>Create, feed each chunk in turn, delete: the result code of the delete and the words
  the sink received.\<close>

fun FeedDecompressor_chunks :: "bool \<Rightarrow> Decompressor \<Rightarrow> u32 list list \<Rightarrow> Decompressor" where
  "FeedDecompressor_chunks le d [] = d"
| "FeedDecompressor_chunks le d (c # cs) =
     FeedDecompressor_chunks le (internalFeedDecompressor le d c) cs"

definition decompress_chunks :: "bool \<Rightarrow> u32 list list \<Rightarrow> error option \<times> u32 list" where
  "decompress_chunks le chunks =
     (let r = DeleteDecompressor le
                (FeedDecompressor_chunks le (CreateDecompressor calloc_Decompressor True) chunks)
      in (fst r, dh_Output (snd r)))"


section \<open>The match tree of compress.cpp\<close>

record CompNode =
  cn_Parent :: nat
  cn_LeftChild :: nat
  cn_RightChild :: nat

type_synonym tree_array = "nat \<Rightarrow> CompNode"

definition set_Parent :: "tree_array \<Rightarrow> nat \<Rightarrow> nat \<Rightarrow> tree_array" where
  "set_Parent t n v = t(n := (t n)\<lparr>cn_Parent := v\<rparr>)"

definition set_LeftChild :: "tree_array \<Rightarrow> nat \<Rightarrow> nat \<Rightarrow> tree_array" where
  "set_LeftChild t n v = t(n := (t n)\<lparr>cn_LeftChild := v\<rparr>)"

definition set_RightChild :: "tree_array \<Rightarrow> nat \<Rightarrow> nat \<Rightarrow> tree_array" where
  "set_RightChild t n v = t(n := (t n)\<lparr>cn_RightChild := v\<rparr>)"

text \<open>The comparison loop of \<open>AddString\<close>,
  \<open>for (i = 0; i < LOOK_AHEAD_SIZE; i++) { delta = ...; if (delta) break; }\<close>:
  the pair of \<open>i\<close> and \<open>delta\<close> when it ends.\<close>

function PhraseCompare :: "(nat \<Rightarrow> byte) \<Rightarrow> nat \<Rightarrow> nat \<Rightarrow> nat \<Rightarrow> int \<Rightarrow> nat \<times> int" where
  "PhraseCompare window newNode testNode i delta =
     (if i < LOOK_AHEAD_SIZE then
        (let delta' = uint (window (MOD_WINDOW (newNode + i)))
                      - uint (window (MOD_WINDOW (testNode + i)))
         in if delta' \<noteq> 0 then (i, delta')
            else PhraseCompare window newNode testNode (i + 1) delta')
      else (i, delta))"
  by pat_completeness auto
termination
  by (relation "measure (\<lambda>(window, newNode, testNode, i, delta). LOOK_AHEAD_SIZE - i)") auto

declare PhraseCompare.simps [simp del]

text \<open>The full-match branch of \<open>AddString\<close>: \<open>newNode\<close> takes the place of \<open>testNode\<close>.
  The assignments are applied in the order of the source, each reading the tree the
  previous ones left.\<close>

definition ReplaceNode :: "tree_array \<Rightarrow> nat \<Rightarrow> nat \<Rightarrow> tree_array" where
  "ReplaceNode t testNode newNode =
     (let parentNode = cn_Parent (t testNode);
          t1 = (if cn_LeftChild (t parentNode) = testNode
                then set_LeftChild t parentNode newNode
                else set_RightChild t parentNode newNode);
          t2 = t1(newNode := t1 testNode);
          t3 = set_Parent t2 (cn_LeftChild (t2 newNode)) newNode;
          t4 = set_Parent t3 (cn_RightChild (t3 newNode)) newNode
      in set_Parent t4 testNode UNUSED)"

text \<open>The two leaf branches of \<open>AddString\<close>: \<open>newNode\<close> becomes a child of \<open>testNode\<close>.\<close>

definition AttachRight :: "tree_array \<Rightarrow> nat \<Rightarrow> nat \<Rightarrow> tree_array" where
  "AttachRight t testNode newNode =
     (let t1 = set_RightChild t testNode newNode;
          t2 = set_Parent t1 newNode testNode;
          t3 = set_LeftChild t2 newNode UNUSED
      in set_RightChild t3 newNode UNUSED)"

definition AttachLeft :: "tree_array \<Rightarrow> nat \<Rightarrow> nat \<Rightarrow> tree_array" where
  "AttachLeft t testNode newNode =
     (let t1 = set_LeftChild t testNode newNode;
          t2 = set_Parent t1 newNode testNode;
          t3 = set_LeftChild t2 newNode UNUSED
      in set_RightChild t3 newNode UNUSED)"

text \<open>The descent \<open>while (true)\<close> of \<open>AddString\<close>. Nothing in the loop bounds the number of
  iterations, so the model is a partial function: \<open>None\<close> is a descent that never ends.
  The result is the tree, \<open>matchLen\<close> and \<open>*matchPos\<close>.\<close>

partial_function (option) AddString_loop ::
    "(nat \<Rightarrow> byte) \<Rightarrow> nat \<Rightarrow> tree_array \<Rightarrow> nat \<Rightarrow> nat \<Rightarrow> nat \<Rightarrow> (tree_array \<times> nat \<times> nat) option" where
  "AddString_loop window newNode t testNode matchLen matchPos =
     (let c = PhraseCompare window newNode testNode 0 0;
          i = fst c; delta = snd c;
          matchLen' = (if i \<ge> matchLen then i else matchLen);
          matchPos' = (if i \<ge> matchLen then testNode else matchPos)
      in if i \<ge> matchLen \<and> matchLen' \<ge> LOOK_AHEAD_SIZE
         then Some (ReplaceNode t testNode newNode, matchLen', matchPos')
         else if delta \<ge> 0 then
           (if cn_RightChild (t testNode) = UNUSED
            then Some (AttachRight t testNode newNode, matchLen', matchPos')
            else AddString_loop window newNode t (cn_RightChild (t testNode)) matchLen' matchPos')
         else
           (if cn_LeftChild (t testNode) = UNUSED
            then Some (AttachLeft t testNode newNode, matchLen', matchPos')
            else AddString_loop window newNode t (cn_LeftChild (t testNode)) matchLen' matchPos'))"

declare AddString_loop.simps [code]

definition AddString :: "tree_array \<Rightarrow> (nat \<Rightarrow> byte) \<Rightarrow> nat \<Rightarrow> nat \<Rightarrow> (tree_array \<times> nat \<times> nat) option" where
  "AddString t window newNode matchPos =
     (if newNode = END_OF_STREAM then Some (t, 0, matchPos)
      else AddString_loop window newNode t (cn_RightChild (t TREE_ROOT)) 0 matchPos)"

text \<open>The walk \<open>do { newNode = next; next = tree[newNode].cn_RightChild; } while (next != UNUSED)\<close>
  of \<open>DeleteString\<close>; it returns the last \<open>newNode\<close>, or never returns.\<close>

partial_function (option) WalkRight :: "tree_array \<Rightarrow> nat \<Rightarrow> nat option" where
  "WalkRight t next =
     (if cn_RightChild (t next) \<noteq> UNUSED then WalkRight t (cn_RightChild (t next))
      else Some next)"

declare WalkRight.simps [code]

definition DeleteString :: "tree_array \<Rightarrow> nat \<Rightarrow> tree_array option" where
  "DeleteString t node =
     (let parent = cn_Parent (t node) in
      if parent \<noteq> UNUSED then
        (let r =
           (if cn_LeftChild (t node) = UNUSED then
              (let newNode = cn_RightChild (t node)
               in Some (set_Parent t newNode parent, newNode))
            else if cn_RightChild (t node) = UNUSED then
              (let newNode = cn_LeftChild (t node)
               in Some (set_Parent t newNode parent, newNode))
            else
              (let newNode = cn_LeftChild (t node);
                   next = cn_RightChild (t newNode)
               in if next \<noteq> UNUSED then
                    (case WalkRight t next of
                       None \<Rightarrow> None
                     | Some newNode \<Rightarrow>
                         (let t1 = set_RightChild t (cn_Parent (t newNode)) UNUSED;
                              t2 = set_Parent t1 newNode (cn_Parent (t1 node));
                              t3 = set_LeftChild t2 newNode (cn_LeftChild (t2 node));
                              t4 = set_RightChild t3 newNode (cn_RightChild (t3 node));
                              t5 = set_Parent t4 (cn_LeftChild (t4 newNode)) newNode;
                              t6 = set_Parent t5 (cn_RightChild (t5 newNode)) newNode
                          in Some (t6, newNode)))
                  else
                    (let t1 = set_Parent t newNode parent;
                         t2 = set_RightChild t1 newNode (cn_RightChild (t1 node));
                         t3 = set_Parent t2 (cn_RightChild (t2 newNode)) newNode
                     in Some (t3, newNode))))
         in case r of
              None \<Rightarrow> None
            | Some (t', newNode) \<Rightarrow>
                (let t'' = (if cn_LeftChild (t' parent) = node
                            then set_LeftChild t' parent newNode
                            else set_RightChild t' parent newNode)
                 in Some (set_Parent t'' node UNUSED)))
      else Some t)"

section \<open>The bit writer of compress.cpp\<close>

text \<open>The sink \<open>bs_OutputWord\<close> is modelled by \<open>cbs_Output\<close>, the list of the words handed
  to it so far. The fields carry the prefix \<open>cbs\<close> because decompress.cpp has a stream record
  with the same field names.\<close>

record CompressBitStream =
  cbs_Output :: "u32 list"
  cbs_BitsLeft :: nat
  cbs_BitBuffer :: u32

definition InitBitStream_c :: "CompressBitStream \<Rightarrow> CompressBitStream" where
  "InitBitStream_c bs = bs\<lparr>cbs_Output := [], cbs_BitsLeft := 32, cbs_BitBuffer := 0\<rparr>"

definition CleanupBitStream :: "bool \<Rightarrow> CompressBitStream \<Rightarrow> CompressBitStream" where
  "CleanupBitStream le bs =
     (if cbs_BitsLeft bs \<noteq> 32
      then bs\<lparr>cbs_Output := cbs_Output bs @ [byteswap_if_little_endian le (cbs_BitBuffer bs)]\<rparr>
      else bs)"

text \<open>\<open>x--\<close> on a \<open>uint32_t\<close>.\<close>

definition dec32 :: "nat \<Rightarrow> nat" where
  "dec32 n = (if n = 0 then 2 ^ 32 - 1 else n - 1)"

text \<open>\<open>WriteBits\<close>; the model is the C function while \<open>bs_BitsLeft\<close> is between 1 and 32
  and \<open>numBits\<close> at most 32, where none of its shifts is undefined.\<close>

definition WriteBits :: "bool \<Rightarrow> CompressBitStream \<Rightarrow> u32 \<Rightarrow> u32 \<Rightarrow> nat \<Rightarrow> CompressBitStream" where
  "WriteBits le bs headBit code numBits =
     (let bl = dec32 (cbs_BitsLeft bs);
          buf = cbs_BitBuffer bs OR push_bit bl headBit
      in if numBits \<ge> bl then
           (let n = numBits - bl;
                out = cbs_Output bs @ [byteswap_if_little_endian le (drop_bit n code OR buf)];
                bl' = 32 - n
            in bs\<lparr>cbs_Output := out, cbs_BitsLeft := bl',
                   cbs_BitBuffer := (if n = 0 then 0 else push_bit bl' code)\<rparr>)
         else bs\<lparr>cbs_BitsLeft := bl - numBits,
                 cbs_BitBuffer := buf OR push_bit (bl - numBits) code\<rparr>)"

section \<open>The encoder of compress.cpp\<close>

text \<open>The locals \<open>lookAhead\<close>, \<open>currentPos\<close>, \<open>matchLen\<close>, \<open>matchPos\<close> and \<open>replaceCnt\<close> of
  \<open>FeedCompressor\<close> are loaded from the instance on entry and stored back at the exit in
  the replacement loop; the model works on the fields themselves.\<close>

record Compressor =
  ch_Window :: "nat \<Rightarrow> byte"
  ch_Tree :: tree_array
  ch_LookAhead :: int
  ch_MatchLen :: int
  ch_MatchPos :: nat
  ch_CurrentPos :: nat
  ch_ReplaceCnt :: nat
  ch_BitStream :: CompressBitStream
  ch_SecondPass :: bool
  ch_AllocatedStructure :: bool
  ch_Cookie :: bool

text \<open>\<open>CreateCompressor\<close> builds the instance in \<open>buf\<close>, the caller's work buffer or the
  block that \<open>malloc\<close> returned, whose bytes are whatever they were; the fields it does
  not assign keep what \<open>buf\<close> held. The null checks on the arguments and the failure of
  \<open>malloc\<close> are outside the model.\<close>

definition CreateCompressor :: "Compressor \<Rightarrow> bool \<Rightarrow> Compressor" where
  "CreateCompressor buf allocated =
     buf\<lparr>ch_LookAhead := 1, ch_CurrentPos := 1, ch_MatchPos := 0, ch_MatchLen := 0,
         ch_ReplaceCnt := 0, ch_SecondPass := False, ch_Cookie := True,
         ch_AllocatedStructure := allocated,
         ch_BitStream := InitBitStream_c (ch_BitStream buf),
         ch_Tree := (\<lambda>_. \<lparr>cn_Parent = UNUSED, cn_LeftChild = UNUSED, cn_RightChild = UNUSED\<rparr>)
            (TREE_ROOT := \<lparr>cn_Parent = UNUSED, cn_LeftChild = UNUSED, cn_RightChild = 1\<rparr>,
             1 := \<lparr>cn_Parent = TREE_ROOT, cn_LeftChild = UNUSED, cn_RightChild = UNUSED\<rparr>)\<rparr>"

text \<open>The head of the encoding loop: clamp \<open>matchLen\<close>, write a literal or a reference,
  set \<open>replaceCnt\<close>.\<close>

definition EmitToken :: "bool \<Rightarrow> Compressor \<Rightarrow> Compressor" where
  "EmitToken le st =
     (let matchLen = (if ch_MatchLen st > ch_LookAhead st then ch_LookAhead st else ch_MatchLen st)
      in if matchLen \<le> int BREAK_EVEN then
           st\<lparr>ch_MatchLen := matchLen,
              ch_BitStream := WriteBits le (ch_BitStream st) 1
                                (ucast (ch_Window st (ch_CurrentPos st))) 8,
              ch_ReplaceCnt := 1\<rparr>
         else
           st\<lparr>ch_MatchLen := matchLen,
              ch_BitStream := WriteBits le (ch_BitStream st) 0
                                (push_bit LENGTH_BIT_COUNT (of_nat (ch_MatchPos st))
                                   OR of_int (matchLen - (int BREAK_EVEN + 1)))
                                (INDEX_BIT_COUNT + LENGTH_BIT_COUNT),
              ch_ReplaceCnt := nat matchLen\<rparr>)"

text \<open>\<open>currentPos = MOD_WINDOW(currentPos + 1); if (lookAhead) matchLen = AddString(...)\<close>.\<close>

definition Advance :: "Compressor \<Rightarrow> Compressor option" where
  "Advance st =
     (let cp = MOD_WINDOW (ch_CurrentPos st + 1) in
      if ch_LookAhead st \<noteq> 0 then
        (case AddString (ch_Tree st) (ch_Window st) cp (ch_MatchPos st) of
           None \<Rightarrow> None
         | Some (t, ml, mp) \<Rightarrow>
             Some (st\<lparr>ch_CurrentPos := cp, ch_Tree := t, ch_MatchLen := int ml, ch_MatchPos := mp\<rparr>))
      else Some (st\<lparr>ch_CurrentPos := cp\<rparr>))"

text \<open>From the label \<open>newData\<close> of \<open>FeedCompressor\<close> to the end of the loop body, with the
  byte \<open>b\<close> taken from the input.\<close>

definition NewData :: "byte \<Rightarrow> Compressor \<Rightarrow> Compressor option" where
  "NewData b st =
     Advance (st\<lparr>ch_Window := (ch_Window st)(MOD_WINDOW (ch_CurrentPos st + LOOK_AHEAD_SIZE) := b)\<rparr>)"

text \<open>\<open>FeedCompressor\<close> from the test of \<open>while (replaceCnt--)\<close> on. When the count is 0 the
  inner loop ends (the decrement wraps) and the next round of \<open>while (true)\<close> writes a token;
  otherwise the body runs: delete, then either store the state and return, when the input
  is used up, or take a byte.\<close>

function FeedReplace :: "bool \<Rightarrow> byte list \<Rightarrow> Compressor \<Rightarrow> Compressor option" where
  "FeedReplace le src st =
     (if ch_ReplaceCnt st = 0 then
        FeedReplace le src (EmitToken le (st\<lparr>ch_ReplaceCnt := dec32 0\<rparr>))
      else
        (case DeleteString (ch_Tree st) (MOD_WINDOW (ch_CurrentPos st + LOOK_AHEAD_SIZE)) of
           None \<Rightarrow> None
         | Some t \<Rightarrow>
             (let st1 = st\<lparr>ch_ReplaceCnt := dec32 (ch_ReplaceCnt st), ch_Tree := t\<rparr> in
              case src of
                [] \<Rightarrow> Some (st1\<lparr>ch_SecondPass := True\<rparr>)
              | b # rest \<Rightarrow>
                  (case NewData b st1 of
                     None \<Rightarrow> None
                   | Some st2 \<Rightarrow> FeedReplace le rest st2))))"
  by pat_completeness auto

lemma EmitToken_ReplaceCnt: "ch_ReplaceCnt (EmitToken le st) \<noteq> 0"
  by (simp add: EmitToken_def Let_def BREAK_EVEN_def)

termination FeedReplace
  by (relation "measure (\<lambda>(le, src, st). 2 * length src + (if ch_ReplaceCnt st = 0 then 1 else 0))")
    (auto simp: EmitToken_ReplaceCnt)

declare FeedReplace.simps [simp del]

text \<open>\<open>FeedCompressor\<close> from the filling loop \<open>while (lookAhead <= LOOK_AHEAD_SIZE)\<close> on;
  after it, \<open>lookAhead--\<close> and the first round of \<open>while (true)\<close>.\<close>

function FeedFill :: "bool \<Rightarrow> byte list \<Rightarrow> Compressor \<Rightarrow> Compressor option" where
  "FeedFill le src st =
     (if ch_LookAhead st \<le> int LOOK_AHEAD_SIZE then
        (case src of
           [] \<Rightarrow> Some st
         | b # rest \<Rightarrow>
             FeedFill le rest
               (st\<lparr>ch_Window := (ch_Window st)(nat (ch_LookAhead st) := b),
                   ch_LookAhead := ch_LookAhead st + 1\<rparr>))
      else FeedReplace le src (EmitToken le (st\<lparr>ch_LookAhead := ch_LookAhead st - 1\<rparr>)))"
  by pat_completeness auto
termination
  by (relation "measure (\<lambda>(le, src, st). length src)") auto

declare FeedFill.simps [simp del]

text \<open>The bytes of a word in the order they lie in memory, which is the order in which
  \<open>FeedCompressor\<close> reads them through \<open>uint8_t *src\<close>.\<close>

definition MemoryBytes :: "bool \<Rightarrow> u32 \<Rightarrow> byte list" where
  "MemoryBytes le w =
     (let bs = [ucast (drop_bit 24 w), ucast (drop_bit 16 w), ucast (drop_bit 8 w), ucast w]
      in if le then rev bs else bs)"

text \<open>\<open>numDataBytes = numDataWords * sizeof(uint32_t)\<close> is stored in a \<open>uint32_t\<close>: it is
  the product modulo \<open>2\<^sup>3\<^sup>2\<close>, and the loops of \<open>FeedCompressor\<close> read that many bytes
  from \<open>src\<close>, not more.\<close>

definition numDataBytes :: "u32 list \<Rightarrow> nat" where
  "numDataBytes dat = (length dat * 4) mod 2 ^ 32"

text \<open>The body of \<open>FeedCompressor\<close> after the check of the handle, on the words \<open>dat\<close>
  that \<open>data\<close> points to, \<open>numDataWords\<close> being their number.\<close>

definition FeedCompressor_body :: "bool \<Rightarrow> Compressor \<Rightarrow> u32 list \<Rightarrow> Compressor option" where
  "FeedCompressor_body le ch dat =
     (case take (numDataBytes dat) (concat (map (MemoryBytes le) dat)) of
        [] \<Rightarrow> Some ch
      | b # rest \<Rightarrow>
          if ch_SecondPass ch then
            (case NewData b ch of None \<Rightarrow> None | Some st \<Rightarrow> FeedReplace le rest st)
          else FeedFill le (b # rest) ch)"

definition FeedCompressor :: "bool \<Rightarrow> Compressor \<Rightarrow> u32 list \<Rightarrow> (error + Compressor) option" where
  "FeedCompressor le ch dat =
     (if \<not> ch_Cookie ch then Some (Inl COMP_ERR_BADPTR)
      else map_option Inr (FeedCompressor_body le ch dat))"

lemma Advance_ReplaceCnt: "Advance st = Some st' \<Longrightarrow> ch_ReplaceCnt st' = ch_ReplaceCnt st"
  by (auto simp: Advance_def Let_def split: if_splits option.splits)

lemma Advance_LookAhead: "Advance st = Some st' \<Longrightarrow> ch_LookAhead st' = ch_LookAhead st"
  by (auto simp: Advance_def Let_def split: if_splits option.splits)

text \<open>The loop \<open>while (replaceCnt--)\<close> of \<open>FlushCompressor\<close>.\<close>

function FlushReplace :: "Compressor \<Rightarrow> Compressor option" where
  "FlushReplace st =
     (if ch_ReplaceCnt st = 0 then Some (st\<lparr>ch_ReplaceCnt := dec32 0\<rparr>)
      else
        (case DeleteString (ch_Tree st) (MOD_WINDOW (ch_CurrentPos st + LOOK_AHEAD_SIZE)) of
           None \<Rightarrow> None
         | Some t \<Rightarrow>
             (case Advance (st\<lparr>ch_ReplaceCnt := dec32 (ch_ReplaceCnt st), ch_Tree := t,
                               ch_LookAhead := ch_LookAhead st - 1\<rparr>) of
                None \<Rightarrow> None
              | Some st2 \<Rightarrow> FlushReplace st2)))"
  by pat_completeness auto
termination
  by (relation "measure ch_ReplaceCnt") (auto simp: dec32_def dest!: Advance_ReplaceCnt)

declare FlushReplace.simps [simp del]

lemma FlushReplace_LookAhead:
  "FlushReplace st = Some st' \<Longrightarrow> ch_LookAhead st' = ch_LookAhead st - int (ch_ReplaceCnt st)"
proof (induction st rule: FlushReplace.induct)
  case (1 st)
  show ?case
  proof (cases "ch_ReplaceCnt st = 0")
    case True
    with "1.prems" show ?thesis
      by (auto simp: FlushReplace.simps [of st])
  next
    case False
    from False "1.prems" obtain t st2 where
      d: "DeleteString (ch_Tree st) (MOD_WINDOW (ch_CurrentPos st + LOOK_AHEAD_SIZE)) = Some t"
      and a: "Advance (st\<lparr>ch_ReplaceCnt := dec32 (ch_ReplaceCnt st), ch_Tree := t,
                           ch_LookAhead := ch_LookAhead st - 1\<rparr>) = Some st2"
      and f: "FlushReplace st2 = Some st'"
      by (auto simp: FlushReplace.simps [of st] split: option.splits)
    from "1.IH" [OF False d a f] Advance_ReplaceCnt [OF a] Advance_LookAhead [OF a] False
    show ?thesis
      by (simp add: dec32_def)
  qed
qed

text \<open>The loop \<open>while (lookAhead >= 0)\<close> of \<open>FlushCompressor\<close>.\<close>

function FlushLoop :: "bool \<Rightarrow> Compressor \<Rightarrow> Compressor option" where
  "FlushLoop le st =
     (if ch_LookAhead st \<ge> 0 then
        (case FlushReplace (EmitToken le st) of
           None \<Rightarrow> None
         | Some st' \<Rightarrow> FlushLoop le st')
      else Some st)"
  by pat_completeness auto

lemma EmitToken_LookAhead [simp]: "ch_LookAhead (EmitToken le st) = ch_LookAhead st"
  by (simp add: EmitToken_def Let_def)

termination FlushLoop
proof (relation "measure (\<lambda>(le, st). nat (ch_LookAhead st + 1))", goal_cases)
  case 1
  show ?case by simp
next
  case (2 le st st')
  from FlushReplace_LookAhead [OF 2(2)] EmitToken_ReplaceCnt [of le st] 2(1)
  show ?case by simp
qed

declare FlushLoop.simps [simp del]

text \<open>\<open>FlushCompressor\<close> works on local copies of the five counters and never stores them
  back; what it leaves in the instance are the tree and the bit stream.\<close>

definition FlushCompressor :: "bool \<Rightarrow> Compressor \<Rightarrow> Compressor option" where
  "FlushCompressor le ch =
     (case (if ch_SecondPass ch
            then (case Advance ch of
                    None \<Rightarrow> None
                  | Some st \<Rightarrow> (case FlushReplace st of None \<Rightarrow> None | Some st' \<Rightarrow> FlushLoop le st'))
            else FlushLoop le ch) of
        None \<Rightarrow> None
      | Some st \<Rightarrow> Some (ch\<lparr>ch_Tree := ch_Tree st, ch_BitStream := ch_BitStream st\<rparr>))"

text \<open>\<open>DeleteCompressor\<close>: the result code (\<open>None\<close> for 0) and the instance, whose
  \<open>cbs_Output\<close> holds everything the sink received.\<close>

definition DeleteCompressor :: "bool \<Rightarrow> Compressor \<Rightarrow> (error option \<times> Compressor) option" where
  "DeleteCompressor le ch =
     (if \<not> ch_Cookie ch then Some (Some COMP_ERR_BADPTR, ch)
      else
        (case FlushCompressor le (ch\<lparr>ch_Cookie := False\<rparr>) of
           None \<Rightarrow> None
         | Some c \<Rightarrow>
             Some (None,
               c\<lparr>ch_BitStream :=
                   CleanupBitStream le
                     (WriteBits le (ch_BitStream c) 0 (of_nat END_OF_STREAM) INDEX_BIT_COUNT)\<rparr>)))"

text \<open>Create in \<open>buf\<close>, feed each chunk in turn, delete: the words the sink received.\<close>

fun FeedCompressor_chunks :: "bool \<Rightarrow> Compressor \<Rightarrow> u32 list list \<Rightarrow> Compressor option" where
  "FeedCompressor_chunks le ch [] = Some ch"
| "FeedCompressor_chunks le ch (c # cs) =
     (case FeedCompressor_body le ch c of
        None \<Rightarrow> None
      | Some comp' \<Rightarrow> FeedCompressor_chunks le comp' cs)"

definition compress_chunks :: "bool \<Rightarrow> Compressor \<Rightarrow> u32 list list \<Rightarrow> u32 list option" where
  "compress_chunks le buf chunks =
     (case FeedCompressor_chunks le (CreateCompressor buf True) chunks of
        None \<Rightarrow> None
      | Some ch \<Rightarrow>
          (case DeleteCompressor le ch of
             None \<Rightarrow> None
           | Some r \<Rightarrow> Some (cbs_Output (ch_BitStream (snd r)))))"


text \<open>A work buffer whose bytes are all zero.\<close>

definition zero_Compressor :: Compressor where
  "zero_Compressor =
     \<lparr>ch_Window = (\<lambda>_. 0),
      ch_Tree = (\<lambda>_. \<lparr>cn_Parent = 0, cn_LeftChild = 0, cn_RightChild = 0\<rparr>),
      ch_LookAhead = 0, ch_MatchLen = 0, ch_MatchPos = 0, ch_CurrentPos = 0, ch_ReplaceCnt = 0,
      ch_BitStream = \<lparr>cbs_Output = [], cbs_BitsLeft = 0, cbs_BitBuffer = 0\<rparr>,
      ch_SecondPass = False, ch_AllocatedStructure = False, ch_Cookie = False\<rparr>"


section \<open>Notions for stating the properties of the match tree\<close>

text \<open>What the comparison loop of \<open>AddString\<close> finds at a test node: the length of the
  common prefix of the two phrases, and the difference of the first bytes that differ.\<close>

definition PrefixLen :: "(nat \<Rightarrow> byte) \<Rightarrow> nat \<Rightarrow> nat \<Rightarrow> nat" where
  "PrefixLen w newNode testNode = fst (PhraseCompare w newNode testNode 0 0)"

definition Delta :: "(nat \<Rightarrow> byte) \<Rightarrow> nat \<Rightarrow> nat \<Rightarrow> int" where
  "Delta w newNode testNode = snd (PhraseCompare w newNode testNode 0 0)"

text \<open>\<open>Descent w newNode t testNode path\<close>: started at \<open>testNode\<close>, the descent of
  \<open>AddString\<close> compares \<open>newNode\<close> with the nodes of \<open>path\<close>, in this order, and ends at
  the last of them, by a full match or at a missing child.\<close>

inductive Descent :: "(nat \<Rightarrow> byte) \<Rightarrow> nat \<Rightarrow> tree_array \<Rightarrow> nat \<Rightarrow> nat list \<Rightarrow> bool"
  for w newNode t where
  full: "PrefixLen w newNode testNode \<ge> LOOK_AHEAD_SIZE \<Longrightarrow> Descent w newNode t testNode [testNode]"
| leaf_right: "PrefixLen w newNode testNode < LOOK_AHEAD_SIZE \<Longrightarrow> Delta w newNode testNode \<ge> 0 \<Longrightarrow>
     cn_RightChild (t testNode) = UNUSED \<Longrightarrow> Descent w newNode t testNode [testNode]"
| leaf_left: "PrefixLen w newNode testNode < LOOK_AHEAD_SIZE \<Longrightarrow> Delta w newNode testNode < 0 \<Longrightarrow>
     cn_LeftChild (t testNode) = UNUSED \<Longrightarrow> Descent w newNode t testNode [testNode]"
| go_right: "PrefixLen w newNode testNode < LOOK_AHEAD_SIZE \<Longrightarrow> Delta w newNode testNode \<ge> 0 \<Longrightarrow>
     cn_RightChild (t testNode) \<noteq> UNUSED \<Longrightarrow>
     Descent w newNode t (cn_RightChild (t testNode)) path \<Longrightarrow>
     Descent w newNode t testNode (testNode # path)"
| go_left: "PrefixLen w newNode testNode < LOOK_AHEAD_SIZE \<Longrightarrow> Delta w newNode testNode < 0 \<Longrightarrow>
     cn_LeftChild (t testNode) \<noteq> UNUSED \<Longrightarrow>
     Descent w newNode t (cn_LeftChild (t testNode)) path \<Longrightarrow>
     Descent w newNode t testNode (testNode # path)"

text \<open>The best match after the nodes \<open>ns\<close> have been compared, from the best match
  \<open>b\<close> before them, where \<open>f n\<close> is the common-prefix length at node \<open>n\<close>.\<close>

fun BestMatch :: "(nat \<Rightarrow> nat) \<Rightarrow> nat list \<Rightarrow> nat \<times> nat \<Rightarrow> nat \<times> nat" where
  "BestMatch f [] b = b"
| "BestMatch f (n # ns) b = BestMatch f ns (if f n \<ge> fst b then (f n, n) else b)"

text \<open>A tree and a window in which two nodes match the new phrase equally well.\<close>

definition tie_window :: "nat \<Rightarrow> byte" where
  "tie_window = (\<lambda>_. 0)(10 := 1, 11 := 2, 12 := 3, 13 := 4, 40 := 1, 41 := 2, 42 := 3, 43 := 5,
                        70 := 1, 71 := 2, 72 := 3, 73 := 6)"

definition tie_tree :: tree_array where
  "tie_tree = (\<lambda>_. \<lparr>cn_Parent = UNUSED, cn_LeftChild = UNUSED, cn_RightChild = UNUSED\<rparr>)
     (TREE_ROOT := \<lparr>cn_Parent = UNUSED, cn_LeftChild = UNUSED, cn_RightChild = 10\<rparr>,
      10 := \<lparr>cn_Parent = TREE_ROOT, cn_LeftChild = UNUSED, cn_RightChild = 40\<rparr>,
      40 := \<lparr>cn_Parent = 10, cn_LeftChild = UNUSED, cn_RightChild = UNUSED\<rparr>)"


text \<open>\<open>TreeAt t p n bt\<close>: the child links of the array \<open>t\<close> below index \<open>n\<close> form the
  binary tree \<open>bt\<close> of node indices, \<open>UNUSED\<close> standing for the empty tree, and the parent
  pointer of every node of \<open>bt\<close> leads to the node above it, the one of \<open>n\<close> to \<open>p\<close>.\<close>

fun TreeAt :: "tree_array \<Rightarrow> nat \<Rightarrow> nat \<Rightarrow> nat tree \<Rightarrow> bool" where
  "TreeAt t p n Leaf = (n = UNUSED)"
| "TreeAt t p n (Node l a r) =
     (n = a \<and> a \<noteq> UNUSED \<and> cn_Parent (t a) = p \<and>
      TreeAt t a (cn_LeftChild (t a)) l \<and> TreeAt t a (cn_RightChild (t a)) r)"

text \<open>\<open>MatchTree t bt\<close>: the tree that hangs at \<open>tree[TREE_ROOT].cn_RightChild\<close> is \<open>bt\<close>,
  and no index occurs twice in it. The number of nodes in the tree is \<open>size bt\<close>.\<close>

definition MatchTree :: "tree_array \<Rightarrow> nat tree \<Rightarrow> bool" where
  "MatchTree t bt =
     (TreeAt t TREE_ROOT (cn_RightChild (t TREE_ROOT)) bt \<and> cn_LeftChild (t TREE_ROOT) = UNUSED \<and>
      distinct (inorder bt) \<and> TREE_ROOT \<notin> set_tree bt)"

text \<open>The node \<open>testNode\<close> renamed to \<open>newNode\<close>.\<close>

definition RenameNode :: "nat \<Rightarrow> nat \<Rightarrow> nat \<Rightarrow> nat" where
  "RenameNode testNode newNode n = (if n = testNode then newNode else n)"

text \<open>A tree of five nodes, ordered by the first bytes of their phrases, in which the
  in-order predecessor 60 of node 80 is not the left child of 80 and has a left child 40.\<close>

definition lost_window :: "nat \<Rightarrow> byte" where
  "lost_window = (\<lambda>_. 0)(20 := 1, 40 := 2, 60 := 3, 80 := 4, 100 := 5)"

definition lost_tree :: tree_array where
  "lost_tree = (\<lambda>_. \<lparr>cn_Parent = UNUSED, cn_LeftChild = UNUSED, cn_RightChild = UNUSED\<rparr>)
     (TREE_ROOT := \<lparr>cn_Parent = UNUSED, cn_LeftChild = UNUSED, cn_RightChild = 80\<rparr>,
      80 := \<lparr>cn_Parent = TREE_ROOT, cn_LeftChild = 20, cn_RightChild = 100\<rparr>,
      20 := \<lparr>cn_Parent = 80, cn_LeftChild = UNUSED, cn_RightChild = 60\<rparr>,
      60 := \<lparr>cn_Parent = 20, cn_LeftChild = 40, cn_RightChild = UNUSED\<rparr>,
      40 := \<lparr>cn_Parent = 60, cn_LeftChild = UNUSED, cn_RightChild = UNUSED\<rparr>,
      100 := \<lparr>cn_Parent = 80, cn_LeftChild = UNUSED, cn_RightChild = UNUSED\<rparr>)"

text \<open>The in-order walk of \<open>bt\<close> yields phrases in ascending order, as \<open>AddString\<close>
  compares them (\<open>delta <= 0\<close> for each earlier node against each later one).\<close>

definition PhraseOrdered :: "(nat \<Rightarrow> byte) \<Rightarrow> nat tree \<Rightarrow> bool" where
  "PhraseOrdered w bt = sorted_wrt (\<lambda>a b. Delta w a b \<le> 0) (inorder bt)"


subsection \<open>Notions for stating the properties of the decoder\<close>

text \<open>The next token of the decoder is the terminator: a word is still unread, the tag bit
  is 0 and the offset that follows is \<open>END_OF_STREAM\<close>.\<close>

definition ReadsTerminator :: "bool \<Rightarrow> Decompressor \<Rightarrow> bool" where
  "ReadsTerminator le d =
     (bs_Data (dh_BitStream d) \<noteq> [] \<and> fst (ReadBits le (dh_BitStream d) 1) = 0 \<and>
      unat (fst (ReadBits le (snd (ReadBits le (dh_BitStream d) 1)) INDEX_BIT_COUNT)) = END_OF_STREAM)"

text \<open>The three steps a round of the token loop can take.\<close>

definition LiteralStep :: "bool \<Rightarrow> Decompressor \<Rightarrow> Decompressor" where
  "LiteralStep le d =
     (let r2 = ReadBits le (snd (ReadBits le (dh_BitStream d) 1)) 8
      in OutputByte le (fst r2) (d\<lparr>dh_BitStream := snd r2\<rparr>))"

definition TerminatorStep :: "bool \<Rightarrow> Decompressor \<Rightarrow> Decompressor" where
  "TerminatorStep le d =
     d\<lparr>dh_BitStream := snd (ReadBits le (snd (ReadBits le (dh_BitStream d) 1)) INDEX_BIT_COUNT)\<rparr>"

definition ReferenceStep :: "bool \<Rightarrow> Decompressor \<Rightarrow> Decompressor" where
  "ReferenceStep le d =
     (let r2 = ReadBits le (snd (ReadBits le (dh_BitStream d) 1)) INDEX_BIT_COUNT;
          r3 = ReadBits le (snd r2) LENGTH_BIT_COUNT
      in CopyMatch le (unat (fst r3) + BREAK_EVEN + 1) (unat (fst r2)) (d\<lparr>dh_BitStream := snd r3\<rparr>))"

text \<open>The number of bits the bit reader has not yet handed out.\<close>

definition BitsAhead :: "DecompressBitStream \<Rightarrow> nat" where
  "BitsAhead bs = 32 * length (bs_Data bs) + bs_BitsLeft bs"


text \<open>The decoder at the head of the token loop of \<open>internalFeedDecompressor\<close>, after
  \<open>FeedBitStream\<close> has installed the words of this call.\<close>

definition Refill :: "Decompressor \<Rightarrow> u32 list \<Rightarrow> Decompressor" where
  "Refill d dat = d\<lparr>dh_BitStream := FeedBitStream (dh_BitStream d) dat\<rparr>"

text \<open>A word is still unread and the next token is a literal or a reference, not the
  terminator.\<close>

definition OrdinaryToken :: "bool \<Rightarrow> Decompressor \<Rightarrow> bool" where
  "OrdinaryToken le d = (bs_Data (dh_BitStream d) \<noteq> [] \<and> \<not> ReadsTerminator le d)"

text \<open>One round of the token loop on an ordinary token.\<close>

definition TokenStep :: "bool \<Rightarrow> Decompressor \<Rightarrow> Decompressor" where
  "TokenStep le d =
     (if fst (ReadBits le (dh_BitStream d) 1) \<noteq> 0 then LiteralStep le d else ReferenceStep le d)"

text \<open>The number of bytes the next ordinary token yields: one for a literal, the length field
  plus \<open>BREAK_EVEN + 1\<close> for a reference.\<close>

definition TokenBytes :: "bool \<Rightarrow> Decompressor \<Rightarrow> nat" where
  "TokenBytes le d =
     (let r1 = ReadBits le (dh_BitStream d) 1 in
      if fst r1 \<noteq> 0 then 1
      else unat (fst (ReadBits le (snd (ReadBits le (snd r1) INDEX_BIT_COUNT)) LENGTH_BIT_COUNT))
             + BREAK_EVEN + 1)"

text \<open>\<open>n\<close> rounds of the token loop; that each of them finds an ordinary token; the bytes they
  yield.\<close>

fun TokenRun :: "bool \<Rightarrow> nat \<Rightarrow> Decompressor \<Rightarrow> Decompressor" where
  "TokenRun le 0 d = d"
| "TokenRun le (Suc n) d = TokenRun le n (TokenStep le d)"

fun OrdinaryRun :: "bool \<Rightarrow> nat \<Rightarrow> Decompressor \<Rightarrow> bool" where
  "OrdinaryRun le 0 d = True"
| "OrdinaryRun le (Suc n) d = (OrdinaryToken le d \<and> OrdinaryRun le n (TokenStep le d))"

fun RunBytes :: "bool \<Rightarrow> nat \<Rightarrow> Decompressor \<Rightarrow> nat" where
  "RunBytes le 0 d = 0"
| "RunBytes le (Suc n) d = TokenBytes le d + RunBytes le n (TokenStep le d)"

text \<open>The bytes the decoder has produced: four for each word handed to the sink and those in
  the word under assembly (\<open>dh_BytesLeft\<close> counts down from 4).\<close>

definition BytesOut :: "Decompressor \<Rightarrow> nat" where
  "BytesOut d = 4 * length (dh_Output d) + (4 - dh_BytesLeft d)"


subsection \<open>Notions for stating the properties of the encoder\<close>

text \<open>\<open>FeedCompressor\<close> on the bytes it reads: the entry at the start or at \<open>newData\<close>.\<close>

definition FeedBytes :: "bool \<Rightarrow> Compressor \<Rightarrow> byte list \<Rightarrow> Compressor option" where
  "FeedBytes le ch src =
     (case src of
        [] \<Rightarrow> Some ch
      | b # rest \<Rightarrow>
          if ch_SecondPass ch then
            (case NewData b ch of None \<Rightarrow> None | Some st \<Rightarrow> FeedReplace le rest st)
          else FeedFill le (b # rest) ch)"


text \<open>An input of 2053 words, as they lie on a big-endian host: every byte is 9, except for
  18 bytes 8 at the start and 18 more from byte 99 on, a byte 1 at 199, a byte 5 at 299, and
  the bytes 3 and 5 at 4112 and 4113, one window length after bytes 16 and 17. The definitions
  of the encoder and the decoder can be evaluated on it.\<close>

definition wrap_input :: "u32 list" where
  "wrap_input =
     map (\<lambda>i. if i < 4 then 0x08080808 else if i = 4 then 0x08080909
              else if i = 24 then 0x09090908 else if 25 \<le> i \<and> i \<le> 28 then 0x08080808
              else if i = 29 then 0x08090909 else if i = 49 then 0x09090901
              else if i = 74 then 0x09090905 else if i = 1028 then 0x03050909
              else 0x09090909) [0..<2053]"

section \<open>Basic facts\<close>

lemma byteswap32_bit:
  "bit (byteswap32 w) n \<longleftrightarrow>
     (n < 8 \<and> bit w (24 + n)) \<or> (8 \<le> n \<and> n < 16 \<and> bit w (8 + n)) \<or>
     (16 \<le> n \<and> n < 24 \<and> bit w (n - 8)) \<or> (24 \<le> n \<and> n < 32 \<and> bit w (n - 24))"
proof -
  consider "n < 8" | "8 \<le> n \<and> n < 16" | "16 \<le> n \<and> n < 24" | "24 \<le> n \<and> n < 32" | "32 \<le> n"
    by linarith
  then show ?thesis
  proof cases
    case 1
    then show ?thesis unfolding byteswap32_def by (simp add: bit_simps)
  next
    case 2
    then have "16 + (n - 8) = 8 + n" by simp
    with 2 show ?thesis unfolding byteswap32_def by (simp add: bit_simps)
  next
    case 3
    then have "8 + (n - 16) = n - 8" by simp
    with 3 show ?thesis unfolding byteswap32_def by (auto simp: bit_simps)
  next
    case 4
    then show ?thesis unfolding byteswap32_def by (auto simp: bit_simps)
  next
    case 5
    then show ?thesis unfolding byteswap32_def by (simp add: bit_simps)
  qed
qed

lemma byteswap32_involution [simp]: "byteswap32 (byteswap32 w) = w"
proof (rule bit_word_eqI)
  fix n assume "n < LENGTH(32)"
  then have "n < 32" by simp
  then consider "n < 8" | "8 \<le> n" "n < 16" | "16 \<le> n" "n < 24" | "24 \<le> n" "n < 32"
    by linarith
  then show "bit (byteswap32 (byteswap32 w)) n = bit w n"
    by cases (auto simp: byteswap32_bit)
qed

lemma byteswap_if_little_endian_involution [simp]:
  "byteswap_if_little_endian le (byteswap_if_little_endian le w) = w"
  by (simp add: byteswap_if_little_endian_def)

lemma DeleteString_detached:
  "cn_Parent (t node) = UNUSED \<Longrightarrow> DeleteString t node = Some t"
  by (simp add: DeleteString_def)

lemma AddString_single_leaf:
  "newNode \<noteq> END_OF_STREAM \<Longrightarrow> cn_RightChild (t TREE_ROOT) = r \<Longrightarrow>
   cn_RightChild (t r) = UNUSED \<Longrightarrow> cn_LeftChild (t r) = UNUSED \<Longrightarrow>
   \<exists>res. AddString t w newNode mp = Some res"
  by (simp add: AddString_def AddString_loop.simps [of w newNode t r] Let_def)

lemma Advance_BitStream: "Advance st = Some st' \<Longrightarrow> ch_BitStream st' = ch_BitStream st"
  by (auto simp: Advance_def Let_def split: if_splits option.splits)

lemma Advance_CurrentPos:
  "Advance st = Some st' \<Longrightarrow> ch_CurrentPos st' = MOD_WINDOW (ch_CurrentPos st + 1)"
  by (auto simp: Advance_def Let_def split: if_splits option.splits)

lemma Advance_Window: "Advance st = Some st' \<Longrightarrow> ch_Window st' = ch_Window st"
  by (auto simp: Advance_def Let_def split: if_splits option.splits)


lemmas const_defs = INDEX_BIT_COUNT_def LENGTH_BIT_COUNT_def WINDOW_SIZE_def BREAK_EVEN_def
  END_OF_STREAM_def LOOK_AHEAD_SIZE_def TREE_ROOT_def UNUSED_def MOD_WINDOW_def

lemma FlushReplace_one:
  assumes "ch_ReplaceCnt st = 1"
    and "DeleteString (ch_Tree st) (MOD_WINDOW (ch_CurrentPos st + LOOK_AHEAD_SIZE)) = Some t"
    and "Advance (st\<lparr>ch_ReplaceCnt := 0, ch_Tree := t, ch_LookAhead := ch_LookAhead st - 1\<rparr>) = Some st2"
  shows "FlushReplace st = Some (st2\<lparr>ch_ReplaceCnt := dec32 0\<rparr>)"
proof -
  have "ch_ReplaceCnt st2 = 0"
    using Advance_ReplaceCnt [OF assms(3)] by simp
  then have "FlushReplace st2 = Some (st2\<lparr>ch_ReplaceCnt := dec32 0\<rparr>)"
    by (simp add: FlushReplace.simps [of st2])
  with assms show ?thesis
    by (simp add: FlushReplace.simps [of st] dec32_def)
qed

lemma Advance_no_lookahead:
  "ch_LookAhead st = 0 \<Longrightarrow> Advance st = Some (st\<lparr>ch_CurrentPos := MOD_WINDOW (ch_CurrentPos st + 1)\<rparr>)"
  by (simp add: Advance_def Let_def)

lemma empty_flush:
  fixes buf :: Compressor
  defines "st0 \<equiv> (CreateCompressor buf True)\<lparr>ch_Cookie := False\<rparr>"
  shows "\<exists>st. FlushLoop le st0 = Some st \<and>
     ch_BitStream st = \<lparr>cbs_Output = [], cbs_BitsLeft = 14,
        cbs_BitBuffer = 0x80000000 OR push_bit 23 (ucast (ch_Window buf 1)) OR 0x400000 OR push_bit 14 (ucast (ch_Window buf 2))\<rparr>"
proof -
  let ?e1 = "EmitToken le st0"
  have e1: "ch_ReplaceCnt ?e1 = 1" "ch_LookAhead ?e1 = 1" "ch_CurrentPos ?e1 = 1"
     "ch_Tree ?e1 = ch_Tree st0" "ch_Window ?e1 = ch_Window buf" "ch_MatchLen ?e1 = 0" "ch_MatchPos ?e1 = 0"
    "ch_BitStream ?e1 = \<lparr>cbs_Output = [], cbs_BitsLeft = 23, cbs_BitBuffer = 0x80000000 OR push_bit 23 (ucast (ch_Window buf 1))\<rparr>"
    by (simp_all add: st0_def EmitToken_def CreateCompressor_def Let_def const_defs WriteBits_def dec32_def InitBitStream_c_def)
  have t0: "cn_Parent (ch_Tree st0 n) = (if n = 1 then TREE_ROOT else UNUSED)"
      "cn_RightChild (ch_Tree st0 TREE_ROOT) = 1"
      "cn_RightChild (ch_Tree st0 1) = UNUSED" "cn_LeftChild (ch_Tree st0 1) = UNUSED" for n
    by (simp_all add: st0_def CreateCompressor_def const_defs)
  have la0: "ch_LookAhead st0 = 1"
    by (simp add: st0_def CreateCompressor_def)
  have d1: "DeleteString (ch_Tree ?e1) (MOD_WINDOW (ch_CurrentPos ?e1 + LOOK_AHEAD_SIZE)) = Some (ch_Tree st0)"
    by (simp add: e1 DeleteString_detached t0 const_defs)
  define s2 where "s2 = (?e1\<lparr>ch_ReplaceCnt := 0, ch_Tree := ch_Tree st0, ch_LookAhead := ch_LookAhead ?e1 - 1\<rparr>)
       \<lparr>ch_CurrentPos := 2, ch_ReplaceCnt := dec32 0\<rparr>"
  have f1: "FlushReplace ?e1 = Some s2"
    unfolding s2_def
    by (subst FlushReplace_one [OF e1(1) d1 Advance_no_lookahead]) (simp_all add: e1 la0 const_defs)
  have l1: "FlushLoop le st0 = FlushLoop le s2"
    by (simp add: FlushLoop.simps [of le st0] f1 la0)
  have s2la: "ch_LookAhead s2 = 0"
    by (simp add: s2_def la0)
  have s2f: "ch_CurrentPos s2 = 2" "ch_MatchLen s2 = 0" "ch_MatchPos s2 = 0"
    "ch_Window s2 = ch_Window buf" "ch_Tree s2 = ch_Tree st0"
    "ch_BitStream s2 = \<lparr>cbs_Output = [], cbs_BitsLeft = 23, cbs_BitBuffer = 0x80000000 OR push_bit 23 (ucast (ch_Window buf 1))\<rparr>"
    by (simp_all add: s2_def e1)
  let ?e2 = "EmitToken le s2"
  have e2: "ch_ReplaceCnt ?e2 = 1" "ch_LookAhead ?e2 = 0" "ch_CurrentPos ?e2 = 2"
     "ch_Tree ?e2 = ch_Tree st0" "ch_Window ?e2 = ch_Window buf" "ch_MatchPos ?e2 = 0"
    "ch_BitStream ?e2 = \<lparr>cbs_Output = [], cbs_BitsLeft = 14,
        cbs_BitBuffer = 0x80000000 OR push_bit 23 (ucast (ch_Window buf 1)) OR 0x400000 OR push_bit 14 (ucast (ch_Window buf 2))\<rparr>"
    by (simp_all add: s2la s2f EmitToken_def Let_def const_defs WriteBits_def dec32_def or.assoc)
  have d2: "DeleteString (ch_Tree ?e2) (MOD_WINDOW (ch_CurrentPos ?e2 + LOOK_AHEAD_SIZE)) = Some (ch_Tree st0)"
    by (simp add: e2 DeleteString_detached t0 const_defs)
  let ?a2 = "?e2\<lparr>ch_ReplaceCnt := 0, ch_Tree := ch_Tree st0, ch_LookAhead := ch_LookAhead ?e2 - 1\<rparr>"
  obtain res where res: "AddString (ch_Tree st0) (ch_Window buf) 3 0 = Some res"
    using AddString_single_leaf [OF _ t0(2) t0(3) t0(4), of 3 "ch_Window buf" 0]
    by (auto simp: const_defs)
  define st3 where "st3 = ?a2\<lparr>ch_CurrentPos := 3, ch_Tree := fst res,
      ch_MatchLen := int (fst (snd res)), ch_MatchPos := snd (snd res)\<rparr>"
  have a2: "Advance ?a2 = Some st3"
    unfolding st3_def using res
    by (simp add: Advance_def Let_def e2 s2la const_defs split: prod.splits)
  have f2: "FlushReplace ?e2 = Some (st3\<lparr>ch_ReplaceCnt := dec32 0\<rparr>)"
    by (rule FlushReplace_one [OF e2(1) d2 a2])
  have la3: "ch_LookAhead st3 = -1"
    using Advance_LookAhead [OF a2] by (simp add: s2la)
  have bs3: "ch_BitStream st3 = ch_BitStream ?e2"
    using Advance_BitStream [OF a2] by simp
  have l2: "FlushLoop le s2 = FlushLoop le (st3\<lparr>ch_ReplaceCnt := dec32 0\<rparr>)"
    by (simp add: FlushLoop.simps [of le s2] f2 s2la)
  have l3: "FlushLoop le (st3\<lparr>ch_ReplaceCnt := dec32 0\<rparr>) = Some (st3\<lparr>ch_ReplaceCnt := dec32 0\<rparr>)"
    by (simp add: FlushLoop.simps [of le "st3\<lparr>ch_ReplaceCnt := dec32 0\<rparr>"] la3)
  show ?thesis
    by (rule exI [of _ "st3\<lparr>ch_ReplaceCnt := dec32 0\<rparr>"]) (simp add: l1 l2 l3 bs3 e2)
qed

lemma tag_bit_set: "(drop_bit 31 (0x80000000 OR x) AND mask 1 :: 32 word) \<noteq> 0"
proof
  assume "drop_bit 31 (0x80000000 OR x) AND mask 1 = (0 :: 32 word)"
  then have "\<not> bit (drop_bit 31 (0x80000000 OR x) AND mask 1 :: 32 word) 0"
    by simp
  then show False
    by (simp add: bit_simps)
qed

lemma TokenLoop_Nil [simp]: "bs_Data (dh_BitStream d) = [] \<Longrightarrow> TokenLoop le d = d"
  by (simp add: TokenLoop.simps)


lemma empty_input_run:
  "compress_chunks le buf [[]] =
     Some [byteswap_if_little_endian le
             (0x80000000 OR push_bit 23 (ucast (ch_Window buf 1)) OR 0x400000
                OR push_bit 14 (ucast (ch_Window buf 2)))] \<and>
   decompress_chunks le
     [[byteswap_if_little_endian le
             (0x80000000 OR push_bit 23 (ucast (ch_Window buf 1)) OR 0x400000
                OR push_bit 14 (ucast (ch_Window buf 2)))]] = (None, [])"
proof
  obtain st where st: "FlushLoop le ((CreateCompressor buf True)\<lparr>ch_Cookie := False\<rparr>) = Some st"
    and bs: "ch_BitStream st = \<lparr>cbs_Output = [], cbs_BitsLeft = 14,
        cbs_BitBuffer = 0x80000000 OR push_bit 23 (ucast (ch_Window buf 1)) OR 0x400000
           OR push_bit 14 (ucast (ch_Window buf 2))\<rparr>"
    using empty_flush [of le buf] by blast
  show "compress_chunks le buf [[]] =
     Some [byteswap_if_little_endian le
             (0x80000000 OR push_bit 23 (ucast (ch_Window buf 1)) OR 0x400000
                OR push_bit 14 (ucast (ch_Window buf 2)))]"
    using st bs
    by (simp add: compress_chunks_def FeedCompressor_body_def DeleteCompressor_def
        FlushCompressor_def CreateCompressor_def WriteBits_def CleanupBitStream_def dec32_def
        const_defs Let_def)
next
  let ?W = "0x80000000 OR push_bit 23 (ucast (ch_Window buf 1)) OR 0x400000
                OR push_bit 14 (ucast (ch_Window buf 2)) :: u32"
  show "decompress_chunks le [[byteswap_if_little_endian le ?W]] = (None, [])"
    using tag_bit_set [of "push_bit 23 (ucast (ch_Window buf 1)) OR 0x400000
                OR push_bit 14 (ucast (ch_Window buf 2))"]
    apply (simp add: decompress_chunks_def internalFeedDecompressor_def FeedBitStream_def
        CreateDecompressor_def calloc_Decompressor_def InitBitStream_d_def)
    apply (subst TokenLoop.simps)
    apply (simp add: ReadBits_def ReadBits_take_def Let_def OutputByte_def DeleteDecompressor_def)
    done
qed


lemma PhraseCompare_le: "i \<le> LOOK_AHEAD_SIZE \<Longrightarrow> fst (PhraseCompare w n t i d) \<le> LOOK_AHEAD_SIZE"
proof (induction w n t i d rule: PhraseCompare.induct)
  case (1 window newNode testNode i delta)
  then show ?case
    by (subst PhraseCompare.simps) (auto simp: Let_def)
qed

lemma PrefixLen_le: "PrefixLen w n t \<le> LOOK_AHEAD_SIZE"
  by (simp add: PrefixLen_def PhraseCompare_le)

lemma BestMatch_fst_le:
  "fst b \<le> k \<Longrightarrow> (\<And>n. f n \<le> k) \<Longrightarrow> fst (BestMatch f ns b) \<le> k"
  by (induction ns arbitrary: b) auto

lemma AddString_loop_unfold:
  "AddString_loop w newNode t testNode ml mp =
     (let i = PrefixLen w newNode testNode;
          ml' = (if i \<ge> ml then i else ml);
          mp' = (if i \<ge> ml then testNode else mp)
      in if i \<ge> ml \<and> ml' \<ge> LOOK_AHEAD_SIZE
         then Some (ReplaceNode t testNode newNode, ml', mp')
         else if Delta w newNode testNode \<ge> 0 then
           (if cn_RightChild (t testNode) = UNUSED
            then Some (AttachRight t testNode newNode, ml', mp')
            else AddString_loop w newNode t (cn_RightChild (t testNode)) ml' mp')
         else
           (if cn_LeftChild (t testNode) = UNUSED
            then Some (AttachLeft t testNode newNode, ml', mp')
            else AddString_loop w newNode t (cn_LeftChild (t testNode)) ml' mp'))"
  by (subst AddString_loop.simps) (simp add: PrefixLen_def Delta_def Let_def)

lemma AddString_loop_Descent:
  assumes "Descent w newNode t testNode path" and "ml \<le> LOOK_AHEAD_SIZE"
  shows "\<exists>t'. AddString_loop w newNode t testNode ml mp
           = Some (t', BestMatch (PrefixLen w newNode) path (ml, mp))"
  using assms
proof (induction arbitrary: ml mp rule: Descent.induct)
  case (full testNode)
  then show ?case
    by (subst AddString_loop_unfold) (auto simp: Let_def)
next
  case (leaf_right testNode)
  then show ?case
    by (subst AddString_loop_unfold) (auto simp: Let_def)
next
  case (leaf_left testNode)
  then show ?case
    by (subst AddString_loop_unfold) (auto simp: Let_def)
next
  case (go_right testNode path)
  let ?i = "PrefixLen w newNode testNode"
  have "(if ml \<le> ?i then ?i else ml) \<le> LOOK_AHEAD_SIZE"
    using go_right.prems PrefixLen_le [of w newNode testNode] by simp
  from go_right.IH [OF this] go_right.hyps(1-3) show ?case
    by (subst AddString_loop_unfold) (auto simp: Let_def)
next
  case (go_left testNode path)
  let ?i = "PrefixLen w newNode testNode"
  have "(if ml \<le> ?i then ?i else ml) \<le> LOOK_AHEAD_SIZE"
    using go_left.prems PrefixLen_le [of w newNode testNode] by simp
  from go_left.IH [OF this] go_left.hyps(1-3) show ?case
    by (subst AddString_loop_unfold) (auto simp: Let_def)
qed

lemma BestMatch_snoc:
  "BestMatch f (ns @ [n]) b =
     (if f n \<ge> fst (BestMatch f ns b) then (f n, n) else BestMatch f ns b)"
  by (induction ns arbitrary: b) simp_all

lemma BestMatch_last_maximal:
  "(BestMatch f ns b = b \<and> (\<forall>n\<in>set ns. f n < fst b)) \<or>
   (\<exists>ns1 ns2. ns = ns1 @ snd (BestMatch f ns b) # ns2 \<and>
      f (snd (BestMatch f ns b)) = fst (BestMatch f ns b) \<and>
      fst b \<le> fst (BestMatch f ns b) \<and>
      (\<forall>n\<in>set ns1. f n \<le> fst (BestMatch f ns b)) \<and>
      (\<forall>n\<in>set ns2. f n < fst (BestMatch f ns b)))"
proof (induction ns rule: rev_induct)
  case Nil
  show ?case by simp
next
  case (snoc n ns)
  let ?b' = "BestMatch f ns b"
  show ?case
  proof (cases "f n \<ge> fst ?b'")
    case True
    have "(\<forall>m\<in>set ns. f m \<le> f n) \<and> fst b \<le> f n"
      using snoc
    proof (elim disjE exE conjE)
      assume "?b' = b" and "\<forall>m\<in>set ns. f m < fst b"
      with True show ?thesis
        by fastforce
    next
      fix ns1 ns2
      assume ns: "ns = ns1 @ snd ?b' # ns2" and a: "f (snd ?b') = fst ?b'" and b: "fst b \<le> fst ?b'"
        and c: "\<forall>m\<in>set ns1. f m \<le> fst ?b'" and d: "\<forall>m\<in>set ns2. f m < fst ?b'"
      from arg_cong [OF ns, of set] have "set ns = set ns1 \<union> {snd ?b'} \<union> set ns2"
        by simp
      with a b c d True show ?thesis
        by fastforce
    qed
    then have "\<forall>m\<in>set ns. f m \<le> f n" and "fst b \<le> f n"
      by simp_all
    then have "(ns @ [n]) = ns @ n # [] \<and> f n = f n \<and> fst b \<le> f n \<and>
        (\<forall>m\<in>set ns. f m \<le> f n) \<and> (\<forall>m\<in>set []. f m < f n)"
      by simp
    then have "\<exists>ns1 ns2. ns @ [n] = ns1 @ n # ns2 \<and> f n = f n \<and> fst b \<le> f n \<and>
        (\<forall>m\<in>set ns1. f m \<le> f n) \<and> (\<forall>m\<in>set ns2. f m < f n)"
      by blast
    then show ?thesis
      using True by (simp add: BestMatch_snoc)
  next
    case False
    from snoc show ?thesis
    proof (elim disjE exE conjE)
      assume "?b' = b" and "\<forall>m\<in>set ns. f m < fst b"
      with False show ?thesis
        by (auto simp: BestMatch_snoc)
    next
      fix ns1 ns2
      assume ns: "ns = ns1 @ snd ?b' # ns2" and a: "f (snd ?b') = fst ?b'" and b: "fst b \<le> fst ?b'"
        and c: "\<forall>m\<in>set ns1. f m \<le> fst ?b'" and d: "\<forall>m\<in>set ns2. f m < fst ?b'"
      from ns have "ns @ [n] = ns1 @ snd ?b' # (ns2 @ [n])"
        by simp
      moreover from d False have "\<forall>m\<in>set (ns2 @ [n]). f m < fst ?b'"
        by auto
      ultimately have "\<exists>ns1' ns2'. ns @ [n] = ns1' @ snd ?b' # ns2' \<and>
          (\<forall>m\<in>set ns1'. f m \<le> fst ?b') \<and> (\<forall>m\<in>set ns2'. f m < fst ?b')"
        using c by blast
      then show ?thesis
        using False a b by (simp add: BestMatch_snoc)
    qed
  qed
qed

lemma Descent_nonempty: "Descent w newNode t testNode path \<Longrightarrow> path \<noteq> []"
  by (induction rule: Descent.induct) simp_all

lemma tie_compare:
  "PhraseCompare tie_window 70 10 0 0 = (3, 2)" "PhraseCompare tie_window 70 40 0 0 = (3, 1)"
  by (simp_all add: PhraseCompare.simps tie_window_def const_defs)

lemma tie_tree_fields:
  "cn_RightChild (tie_tree TREE_ROOT) = 10" "cn_RightChild (tie_tree 10) = 40"
  "cn_RightChild (tie_tree 40) = UNUSED"
  by (simp_all add: tie_tree_def const_defs)

lemma tie_Descent: "Descent tie_window 70 tie_tree (cn_RightChild (tie_tree TREE_ROOT)) [10, 40]"
  unfolding tie_tree_fields
  by (rule Descent.go_right, simp_all add: PrefixLen_def Delta_def tie_compare tie_tree_fields const_defs)
     (rule Descent.leaf_right, simp_all add: PrefixLen_def Delta_def tie_compare tie_tree_fields const_defs)


lemma TreeAt_unique: "TreeAt t p n x \<Longrightarrow> TreeAt t p n y \<Longrightarrow> x = y"
proof (induction x arbitrary: p n y)
  case Leaf
  then show ?case by (cases y) auto
next
  case (Node l a r)
  then show ?case by (cases y) auto
qed

lemma TreeAt_not_UNUSED: "TreeAt t p n bt \<Longrightarrow> UNUSED \<notin> set_tree bt"
  by (induction bt arbitrary: p n) auto

lemma TreeAt_root: "TreeAt t p n bt \<Longrightarrow> n \<noteq> UNUSED \<Longrightarrow> n \<in> set_tree bt \<and> cn_Parent (t n) = p"
  by (cases bt) auto

text \<open>The subtree below a node of the tree.\<close>

lemma TreeAt_subtree:
  "TreeAt t p n bt \<Longrightarrow> a \<in> set_tree bt \<Longrightarrow>
   \<exists>l r. Node l a r \<in> subtrees bt \<and> TreeAt t (cn_Parent (t a)) a (Node l a r)"
proof (induction bt arbitrary: p n)
  case Leaf
  then show ?case by simp
next
  case (Node l b r)
  from Node.prems(2) consider "a = b" | "a \<in> set_tree l" | "a \<in> set_tree r"
    by auto
  then show ?case
  proof cases
    case 1
    with Node.prems(1) show ?thesis by auto
  next
    case 2
    from Node.prems(1) have "TreeAt t b (cn_LeftChild (t b)) l" by simp
    from Node.IH(1) [OF this 2] show ?thesis by auto
  next
    case 3
    from Node.prems(1) have "TreeAt t b (cn_RightChild (t b)) r" by simp
    from Node.IH(2) [OF this 3] show ?thesis by auto
  qed
qed

lemma subtrees_set: "s \<in> subtrees bt \<Longrightarrow> set_tree s \<subseteq> set_tree bt"
  by (induction bt) auto

lemma subtrees_distinct: "s \<in> subtrees bt \<Longrightarrow> distinct (inorder bt) \<Longrightarrow> distinct (inorder s)"
  by (induction bt) auto

text \<open>The parent pointer of a node of the tree is the node above it.\<close>

lemma TreeAt_parent:
  "TreeAt t p n bt \<Longrightarrow> a \<in> set_tree bt \<Longrightarrow>
   (a = n \<and> cn_Parent (t a) = p) \<or>
   (cn_Parent (t a) \<in> set_tree bt \<and>
    (cn_LeftChild (t (cn_Parent (t a))) = a \<or> cn_RightChild (t (cn_Parent (t a))) = a))"
proof (induction bt arbitrary: p n)
  case Leaf
  then show ?case by simp
next
  case (Node l b r)
  from Node.prems(2) consider "a = b" | "a \<in> set_tree l" | "a \<in> set_tree r"
    by auto
  then show ?case
  proof cases
    case 1
    with Node.prems(1) show ?thesis by auto
  next
    case 2
    from Node.prems(1) have l: "TreeAt t b (cn_LeftChild (t b)) l" by simp
    from Node.IH(1) [OF l 2] show ?thesis by auto
  next
    case 3
    from Node.prems(1) have r: "TreeAt t b (cn_RightChild (t b)) r" by simp
    from Node.IH(2) [OF r 3] show ?thesis by auto
  qed
qed

text \<open>A child link of a node of the tree leads to a node of the tree whose parent
  pointer leads back.\<close>

lemma TreeAt_child:
  "TreeAt t p n bt \<Longrightarrow> a \<in> set_tree bt \<Longrightarrow>
   c = cn_LeftChild (t a) \<or> c = cn_RightChild (t a) \<Longrightarrow> c \<noteq> UNUSED \<Longrightarrow>
   c \<in> set_tree bt \<and> cn_Parent (t c) = a"
proof -
  assume t: "TreeAt t p n bt" and a: "a \<in> set_tree bt"
    and c: "c = cn_LeftChild (t a) \<or> c = cn_RightChild (t a)" and c0: "c \<noteq> UNUSED"
  from TreeAt_subtree [OF t a] obtain l r where
    s: "Node l a r \<in> subtrees bt" and ta: "TreeAt t (cn_Parent (t a)) a (Node l a r)"
    by blast
  from ta have "TreeAt t a (cn_LeftChild (t a)) l" "TreeAt t a (cn_RightChild (t a)) r"
    by simp_all
  with c c0 have "(c \<in> set_tree l \<or> c \<in> set_tree r) \<and> cn_Parent (t c) = a"
    using TreeAt_root by blast
  with subtrees_set [OF s] show ?thesis
    by auto
qed

lemma TreeAt_rename:
  assumes ent: "\<And>a. a \<in> set_tree bt \<Longrightarrow>
      t' (f a) = \<lparr>cn_Parent = f (cn_Parent (t a)), cn_LeftChild = f (cn_LeftChild (t a)),
                  cn_RightChild = f (cn_RightChild (t a))\<rparr>"
    and f0: "f UNUSED = UNUSED" and fn: "\<And>a. a \<in> set_tree bt \<Longrightarrow> f a \<noteq> UNUSED"
  shows "TreeAt t p n bt \<Longrightarrow> TreeAt t' (f p) (f n) (map_tree f bt)"
  using ent fn
proof (induction bt arbitrary: p n)
  case Leaf
  then show ?case by (simp add: f0)
next
  case (Node l a r)
  from Node.prems(1) have n: "n = a" and p: "cn_Parent (t a) = p"
    and l: "TreeAt t a (cn_LeftChild (t a)) l" and r: "TreeAt t a (cn_RightChild (t a)) r"
    by simp_all
  have e: "t' (f a) = \<lparr>cn_Parent = f (cn_Parent (t a)), cn_LeftChild = f (cn_LeftChild (t a)),
                  cn_RightChild = f (cn_RightChild (t a))\<rparr>"
    by (rule Node.prems(2)) simp
  have "TreeAt t' (f a) (f (cn_LeftChild (t a))) (map_tree f l)"
    by (rule Node.IH(1) [OF l]) (simp_all add: Node.prems)
  moreover have "TreeAt t' (f a) (f (cn_RightChild (t a))) (map_tree f r)"
    by (rule Node.IH(2) [OF r]) (simp_all add: Node.prems)
  ultimately show ?case
    using n p e Node.prems(3) [of a] by simp
qed

lemma TreeAt_not_below:
  assumes t: "TreeAt t p n bt" and d: "distinct (inorder bt)" and a: "a \<in> set_tree bt"
    and c: "c = cn_LeftChild (t a) \<or> c = cn_RightChild (t a)" and s: "TreeAt t a c s"
  shows "a \<notin> set_tree s"
proof -
  from TreeAt_subtree [OF t a] obtain l r where
    sub: "Node l a r \<in> subtrees bt" and ta: "TreeAt t (cn_Parent (t a)) a (Node l a r)"
    by blast
  from ta have l: "TreeAt t a (cn_LeftChild (t a)) l" and r: "TreeAt t a (cn_RightChild (t a)) r"
    by simp_all
  from c s l r have "s = l \<or> s = r"
    using TreeAt_unique by blast
  moreover from subtrees_distinct [OF sub d] have "a \<notin> set_tree l" "a \<notin> set_tree r"
    by auto
  ultimately show ?thesis by blast
qed

lemma TreeAt_children_differ:
  assumes t: "TreeAt t p n bt" and d: "distinct (inorder bt)" and a: "a \<in> set_tree bt"
    and c: "cn_LeftChild (t a) = c" "cn_RightChild (t a) = c"
  shows "c = UNUSED"
proof (rule ccontr)
  assume c0: "c \<noteq> UNUSED"
  from TreeAt_subtree [OF t a] obtain l r where
    sub: "Node l a r \<in> subtrees bt" and ta: "TreeAt t (cn_Parent (t a)) a (Node l a r)"
    by blast
  from ta c have "TreeAt t a c l" "TreeAt t a c r"
    by simp_all
  with c0 have "c \<in> set_tree l" "c \<in> set_tree r"
    using TreeAt_root by blast+
  with subtrees_distinct [OF sub d] show False
    by auto
qed

lemma set_tree_array_simps:
  "set_Parent t n v a = (if a = n then (t n)\<lparr>cn_Parent := v\<rparr> else t a)"
  "set_LeftChild t n v a = (if a = n then (t n)\<lparr>cn_LeftChild := v\<rparr> else t a)"
  "set_RightChild t n v a = (if a = n then (t n)\<lparr>cn_RightChild := v\<rparr> else t a)"
  by (simp_all add: set_Parent_def set_LeftChild_def set_RightChild_def)

lemma ReplaceNode_entries:
  assumes "P = cn_Parent (t testNode)" "L = cn_LeftChild (t testNode)" "R = cn_RightChild (t testNode)"
    and "P \<noteq> testNode" "P \<noteq> newNode" "P \<noteq> L" "P \<noteq> R"
    and "L \<noteq> testNode" "R \<noteq> testNode" "L \<noteq> newNode" "R \<noteq> newNode" "testNode \<noteq> newNode"
  shows "ReplaceNode t testNode newNode newNode = t testNode"
    and "ReplaceNode t testNode newNode P =
           (if cn_LeftChild (t P) = testNode then (t P)\<lparr>cn_LeftChild := newNode\<rparr>
            else (t P)\<lparr>cn_RightChild := newNode\<rparr>)"
    and "a = L \<or> a = R \<Longrightarrow> ReplaceNode t testNode newNode a = (t a)\<lparr>cn_Parent := newNode\<rparr>"
    and "a \<noteq> P \<Longrightarrow> a \<noteq> newNode \<Longrightarrow> a \<noteq> L \<Longrightarrow> a \<noteq> R \<Longrightarrow> a \<noteq> testNode \<Longrightarrow>
           ReplaceNode t testNode newNode a = t a"
    and "ReplaceNode t testNode newNode testNode = (t testNode)\<lparr>cn_Parent := UNUSED\<rparr>"
proof -
  define t1 where "t1 = (if cn_LeftChild (t P) = testNode
                then set_LeftChild t P newNode else set_RightChild t P newNode)"
  define t2 where "t2 = t1(newNode := t1 testNode)"
  define t3 where "t3 = set_Parent t2 L newNode"
  define t4 where "t4 = set_Parent t3 R newNode"
  have t1: "t1 a = (if a = P then (if cn_LeftChild (t P) = testNode then (t P)\<lparr>cn_LeftChild := newNode\<rparr>
            else (t P)\<lparr>cn_RightChild := newNode\<rparr>) else t a)" for a
    by (simp add: t1_def set_tree_array_simps)
  have t2: "t2 a = (if a = newNode then t testNode else t1 a)" for a
    using assms(4) by (simp add: t2_def t1)
  have t3: "t3 a = (if a = L then (t2 L)\<lparr>cn_Parent := newNode\<rparr> else t2 a)" for a
    by (simp add: t3_def set_tree_array_simps)
  have t4: "t4 a = (if a = R then (t3 R)\<lparr>cn_Parent := newNode\<rparr> else t3 a)" for a
    by (simp add: t4_def set_tree_array_simps)
  have l2: "cn_LeftChild (t2 newNode) = L"
    by (simp add: t2 assms(2))
  have r3: "cn_RightChild (t3 newNode) = R"
    using assms(10) by (simp add: t3 t2 assms(3))
  have r: "ReplaceNode t testNode newNode = set_Parent t4 testNode UNUSED"
    unfolding ReplaceNode_def Let_def
    by (simp only: t1_def [symmetric] assms(1) [symmetric] t2_def [symmetric] l2
        t3_def [symmetric] r3 t4_def [symmetric])
  show "ReplaceNode t testNode newNode newNode = t testNode"
    using assms by (simp add: r set_tree_array_simps t4 t3 t2)
  show "ReplaceNode t testNode newNode P =
           (if cn_LeftChild (t P) = testNode then (t P)\<lparr>cn_LeftChild := newNode\<rparr>
            else (t P)\<lparr>cn_RightChild := newNode\<rparr>)"
    using assms by (simp add: r set_tree_array_simps t4 t3 t2 t1)
  show "ReplaceNode t testNode newNode a = (t a)\<lparr>cn_Parent := newNode\<rparr>" if "a = L \<or> a = R"
  proof (cases "a = R")
    case True
    then have "t4 a = (t3 R)\<lparr>cn_Parent := newNode\<rparr>"
      by (simp add: t4)
    moreover have "t3 R = (if R = L then (t R)\<lparr>cn_Parent := newNode\<rparr> else t R)"
      using assms(7,11) by (simp add: t3 t2 t1)
    ultimately show ?thesis
      using True assms(9) by (simp add: r set_tree_array_simps)
  next
    case False
    with that have a: "a = L" by simp
    with False have "t4 a = t3 L"
      by (simp add: t4)
    moreover have "t3 L = (t L)\<lparr>cn_Parent := newNode\<rparr>"
      using assms(6,10) by (simp add: t3 t2 t1)
    ultimately show ?thesis
      using a assms(8) by (simp add: r set_tree_array_simps)
  qed
  show "ReplaceNode t testNode newNode a = t a"
    if "a \<noteq> P" "a \<noteq> newNode" "a \<noteq> L" "a \<noteq> R" "a \<noteq> testNode"
    using assms that by (simp add: r set_tree_array_simps t4 t3 t2 t1)
  show "ReplaceNode t testNode newNode testNode = (t testNode)\<lparr>cn_Parent := UNUSED\<rparr>"
    using assms by (simp add: r set_tree_array_simps t4 t3 t2 t1)
qed

lemma ReplaceNode_MatchTree:
  assumes mt: "MatchTree t bt" and test: "testNode \<in> set_tree bt"
    and new: "newNode \<notin> set_tree bt" "newNode \<noteq> UNUSED" "newNode \<noteq> TREE_ROOT"
  defines "t' \<equiv> ReplaceNode t testNode newNode"
    and "P \<equiv> cn_Parent (t testNode)"
    and "L \<equiv> cn_LeftChild (t testNode)" and "R \<equiv> cn_RightChild (t testNode)"
  shows "MatchTree t' (map_tree (RenameNode testNode newNode) bt)"
    and "t' newNode = t testNode"
    and "cn_LeftChild (t P) = testNode \<longrightarrow> cn_LeftChild (t' P) = newNode"
    and "cn_LeftChild (t P) \<noteq> testNode \<longrightarrow> cn_RightChild (t P) = testNode \<and> cn_RightChild (t' P) = newNode"
    and "L \<noteq> UNUSED \<longrightarrow> cn_Parent (t' L) = newNode"
    and "R \<noteq> UNUSED \<longrightarrow> cn_Parent (t' R) = newNode"
    and "cn_Parent (t' testNode) = UNUSED"
proof -
  let ?f = "RenameNode testNode newNode"
  let ?n = "cn_RightChild (t TREE_ROOT)"
  from mt have ta: "TreeAt t TREE_ROOT ?n bt" and rl: "cn_LeftChild (t TREE_ROOT) = UNUSED"
    and d: "distinct (inorder bt)" and root: "TREE_ROOT \<notin> set_tree bt"
    by (simp_all add: MatchTree_def)
  have z: "UNUSED \<notin> set_tree bt"
    by (rule TreeAt_not_UNUSED [OF ta])
  from test new z root have tn: "testNode \<noteq> newNode" "testNode \<noteq> UNUSED" "testNode \<noteq> TREE_ROOT"
    by auto
  from TreeAt_subtree [OF ta test] obtain l r where
    sub: "Node l testNode r \<in> subtrees bt" and tt: "TreeAt t P testNode (Node l testNode r)"
    unfolding P_def by blast
  from tt have tl: "TreeAt t testNode L l" and tr: "TreeAt t testNode R r"
    by (simp_all add: L_def R_def)
  have dsub: "testNode \<notin> set_tree l" "testNode \<notin> set_tree r"
    using subtrees_distinct [OF sub d] by auto
  have Lin: "L \<noteq> UNUSED \<Longrightarrow> L \<in> set_tree bt \<and> cn_Parent (t L) = testNode"
    using TreeAt_child [OF ta test, of L] by (simp add: L_def)
  have Rin: "R \<noteq> UNUSED \<Longrightarrow> R \<in> set_tree bt \<and> cn_Parent (t R) = testNode"
    using TreeAt_child [OF ta test, of R] by (simp add: R_def)
  have f1: "L \<noteq> testNode" "R \<noteq> testNode"
    using TreeAt_root [OF tl] TreeAt_root [OF tr] dsub tn(2) by auto
  have f2: "L \<noteq> newNode" "R \<noteq> newNode"
    using Lin Rin new by auto
  have Pcases: "(testNode = ?n \<and> P = TREE_ROOT) \<or>
      (P \<in> set_tree bt \<and> (cn_LeftChild (t P) = testNode \<or> cn_RightChild (t P) = testNode))"
    using TreeAt_parent [OF ta test] by (simp add: P_def)
  have f3: "P \<noteq> testNode"
    using Pcases tn(3) f1 by (auto simp: L_def R_def)
  have f4: "P \<noteq> newNode"
    using Pcases new by auto
  have P0: "P \<noteq> UNUSED"
  proof
    assume "P = UNUSED"
    with Pcases z show False
      by (auto simp: TREE_ROOT_def WINDOW_SIZE_def INDEX_BIT_COUNT_def UNUSED_def)
  qed
  have f5: "P \<noteq> L" "P \<noteq> R"
  proof -
    have "P \<notin> set_tree l \<and> P \<notin> set_tree r"
    proof (cases "P \<in> set_tree bt")
      case False
      with subtrees_set [OF sub] show ?thesis by auto
    next
      case True
      with Pcases root have c: "testNode = cn_LeftChild (t P) \<or> testNode = cn_RightChild (t P)"
        by auto
      from TreeAt_not_below [OF ta d True c tt] show ?thesis
        by simp
    qed
    with TreeAt_root [OF tl] TreeAt_root [OF tr] P0 show "P \<noteq> L" "P \<noteq> R"
      by auto
  qed
  have defs: "P = cn_Parent (t testNode)" "L = cn_LeftChild (t testNode)"
      "R = cn_RightChild (t testNode)"
    by (simp_all add: P_def L_def R_def)
  note ent = ReplaceNode_entries [where t = t and testNode = testNode and newNode = newNode
      and P = P and L = L and R = R, OF defs f3 f4 f5 f1 f2 tn(1), folded t'_def]
  have f6: "cn_LeftChild (t P) = testNode \<Longrightarrow> cn_RightChild (t P) \<noteq> testNode"
    using Pcases rl tn(2) TreeAt_children_differ [OF ta d, of P testNode] by auto
  have f6': "cn_LeftChild (t P) \<noteq> testNode \<Longrightarrow> cn_RightChild (t P) = testNode"
    using Pcases by auto
  have f7: "P \<in> set_tree bt \<Longrightarrow> cn_Parent (t P) \<noteq> testNode"
  proof
    assume Pin: "P \<in> set_tree bt" and e: "cn_Parent (t P) = testNode"
    from TreeAt_parent [OF ta Pin] e tn(3) have "cn_LeftChild (t testNode) = P \<or> cn_RightChild (t testNode) = P"
      by auto
    with f5 show False by (auto simp: L_def R_def)
  qed
  have f8: "a \<in> set_tree bt \<Longrightarrow> a \<noteq> P \<Longrightarrow>
      cn_LeftChild (t a) \<noteq> testNode \<and> cn_RightChild (t a) \<noteq> testNode" for a
    using TreeAt_child [OF ta, of a testNode] tn(2) by (auto simp: P_def)
  have f9: "a \<in> set_tree bt \<Longrightarrow> a \<noteq> L \<Longrightarrow> a \<noteq> R \<Longrightarrow> cn_Parent (t a) \<noteq> testNode" for a
    using TreeAt_parent [OF ta, of a] tn(3) by (auto simp: L_def R_def)
  have entries: "t' (?f a) = \<lparr>cn_Parent = ?f (cn_Parent (t a)), cn_LeftChild = ?f (cn_LeftChild (t a)),
                  cn_RightChild = ?f (cn_RightChild (t a))\<rparr>" if a: "a \<in> set_tree bt" for a
  proof -
    consider "a = testNode" | "a \<noteq> testNode" "a = P" | "a \<noteq> testNode" "a \<noteq> P" "a = L \<or> a = R"
      | "a \<noteq> testNode" "a \<noteq> P" "a \<noteq> L" "a \<noteq> R"
      by blast
    then show ?thesis
    proof cases
      case 1
      then show ?thesis
        using ent(1) f1 f3 by (simp add: RenameNode_def P_def L_def R_def)
    next
      case 2
      with a have Pin: "P \<in> set_tree bt" by simp
      show ?thesis
        using 2 ent(2) f6 f6' f7 [OF Pin] by (auto simp: RenameNode_def)
    next
      case 3
      with a z have "cn_Parent (t a) = testNode"
        using Lin Rin by auto
      with 3 ent(3) [of a] f8 [OF a] show ?thesis
        by (simp add: RenameNode_def)
    next
      case 4
      with a new have "t' a = t a"
        using ent(4) [of a] by auto
      with 4 f8 [OF a] f9 [OF a] show ?thesis
        by (simp add: RenameNode_def)
    qed
  qed
  have "TreeAt t' (?f TREE_ROOT) (?f ?n) (map_tree ?f bt)"
    using entries
  proof (rule TreeAt_rename)
    show "?f UNUSED = UNUSED"
      using tn(2) by (simp add: RenameNode_def)
    show "?f a \<noteq> UNUSED" if "a \<in> set_tree bt" for a
      using that z new(2) by (auto simp: RenameNode_def)
    show "TreeAt t TREE_ROOT ?n bt"
      by (rule ta)
  qed
  moreover have "?f TREE_ROOT = TREE_ROOT"
    using tn(3) by (simp add: RenameNode_def)
  moreover have "cn_RightChild (t' TREE_ROOT) = ?f ?n \<and> cn_LeftChild (t' TREE_ROOT) = UNUSED"
  proof (cases "P = TREE_ROOT")
    case True
    with Pcases root have "testNode = ?n" by auto
    with True ent(2) rl tn(2) show ?thesis
      by (auto simp: RenameNode_def)
  next
    case False
    have "testNode \<noteq> ?n"
    proof
      assume "testNode = ?n"
      with TreeAt_root [OF ta] tn(2) have "cn_Parent (t testNode) = TREE_ROOT"
        by simp
      with False show False
        by (simp add: P_def)
    qed
    moreover have "t' TREE_ROOT = t TREE_ROOT"
      using False new(3) tn(3) Lin Rin root P0
      by (intro ent(4)) (auto simp: TREE_ROOT_def WINDOW_SIZE_def INDEX_BIT_COUNT_def UNUSED_def)
    ultimately show ?thesis
      using rl by (simp add: RenameNode_def)
  qed
  moreover have "distinct (inorder (map_tree ?f bt))"
  proof -
    have "inj_on ?f (set (inorder bt))"
      using new(1) by (auto simp: inj_on_def RenameNode_def)
    with d show ?thesis
      by (simp add: inorder_map distinct_map)
  qed
  moreover have "TREE_ROOT \<notin> set_tree (map_tree ?f bt)"
    using root new(3) by (auto simp: tree.set_map RenameNode_def)
  ultimately show "MatchTree t' (map_tree ?f bt)"
    by (simp add: MatchTree_def)
  show "t' newNode = t testNode"
    by (rule ent(1))
  show "cn_LeftChild (t P) = testNode \<longrightarrow> cn_LeftChild (t' P) = newNode"
    using ent(2) by simp
  show "cn_LeftChild (t P) \<noteq> testNode \<longrightarrow> cn_RightChild (t P) = testNode \<and> cn_RightChild (t' P) = newNode"
    using ent(2) f6' by simp
  show "L \<noteq> UNUSED \<longrightarrow> cn_Parent (t' L) = newNode"
    using ent(3) [of L] by simp
  show "R \<noteq> UNUSED \<longrightarrow> cn_Parent (t' R) = newNode"
    using ent(3) [of R] by simp
  show "cn_Parent (t' testNode) = UNUSED"
    using ent(5) by simp
qed

lemma tie_tree_MatchTree: "MatchTree tie_tree (Node Leaf 10 (Node Leaf 40 Leaf))"
  by (simp add: MatchTree_def tie_tree_def const_defs)


lemma ReadBits_safe:
  assumes "bs_Data bs \<noteq> [] \<or> a + b \<le> bs_BitsLeft bs" and "a + b \<le> 32"
  shows "bs_Error (snd (ReadBits le bs a)) = bs_Error bs \<and>
         (bs_Data (snd (ReadBits le bs a)) \<noteq> [] \<or> b \<le> bs_BitsLeft (snd (ReadBits le bs a)))"
  using assms
  by (auto simp: ReadBits_def ReadBits_take_def Let_def split: list.splits)

lemma ReadBits_suffix: "\<exists>pre. bs_Data bs = pre @ bs_Data (snd (ReadBits le bs n))"
  by (auto simp: ReadBits_def ReadBits_take_def Let_def split: list.splits)

lemma OutputByte_cookie [simp]: "dh_Cookie (OutputByte le c d) = dh_Cookie d"
  by (simp add: OutputByte_def Let_def)

lemma CopyMatch_cookie [simp]: "dh_Cookie (CopyMatch le n i d) = dh_Cookie d"
  by (induction n arbitrary: i d) simp_all

lemma TokenLoop_Error:
  "bs_Error (dh_BitStream (TokenLoop le d)) = bs_Error (dh_BitStream d)"
proof (induction le d rule: TokenLoop.induct)
  case (1 le d)
  show ?case
  proof (cases "bs_Data (dh_BitStream d) = []")
    case True
    then show ?thesis by (simp add: TokenLoop.simps [of le d])
  next
    case False
    let ?r1 = "ReadBits le (dh_BitStream d) 1"
    from False have s1: "bs_Error (snd ?r1) = bs_Error (dh_BitStream d)"
      "bs_Data (snd ?r1) \<noteq> [] \<or> 16 \<le> bs_BitsLeft (snd ?r1)"
      using ReadBits_safe [of "dh_BitStream d" 1 16 le] by simp_all
    show ?thesis
    proof (cases "fst ?r1 \<noteq> 0")
      case True
      let ?r2 = "ReadBits le (snd ?r1) 8"
      from s1 have s2: "bs_Error (snd ?r2) = bs_Error (dh_BitStream d)"
        using ReadBits_safe [of "snd ?r1" 8 0 le] by auto
      from "1.IH"(1) [OF False refl True refl] s2 False True show ?thesis
        by (simp add: TokenLoop.simps [of le d] Let_def)
    next
      case f: False
      let ?r2 = "ReadBits le (snd ?r1) INDEX_BIT_COUNT"
      from s1 have s2: "bs_Error (snd ?r2) = bs_Error (dh_BitStream d)"
        "bs_Data (snd ?r2) \<noteq> [] \<or> 4 \<le> bs_BitsLeft (snd ?r2)"
        using ReadBits_safe [of "snd ?r1" 12 4 le] by (auto simp: INDEX_BIT_COUNT_def)
      show ?thesis
      proof (cases "unat (fst ?r2) = END_OF_STREAM")
        case True
        with False f s2 show ?thesis
          by (simp add: TokenLoop.simps [of le d] Let_def)
      next
        case e: False
        let ?r3 = "ReadBits le (snd ?r2) LENGTH_BIT_COUNT"
        from s2 have s3: "bs_Error (snd ?r3) = bs_Error (dh_BitStream d)"
          using ReadBits_safe [of "snd ?r2" 4 0 le] by (auto simp: LENGTH_BIT_COUNT_def)
        from "1.IH"(2) [OF False refl f refl e refl refl] s3 False f e show ?thesis
          by (simp add: TokenLoop.simps [of le d] Let_def)
      qed
    qed
  qed
qed

lemma TokenLoop_unfold:
  "TokenLoop le d =
     (if bs_Data (dh_BitStream d) = [] then d
      else if fst (ReadBits le (dh_BitStream d) 1) \<noteq> 0 then TokenLoop le (LiteralStep le d)
      else if ReadsTerminator le d then TerminatorStep le d
      else TokenLoop le (ReferenceStep le d))"
  by (subst TokenLoop.simps)
    (simp add: LiteralStep_def TerminatorStep_def ReferenceStep_def ReadsTerminator_def Let_def)

lemma TokenLoop_rule:
  assumes "\<And>d. bs_Data (dh_BitStream d) = [] \<Longrightarrow> P d d"
    and "\<And>d. ReadsTerminator le d \<Longrightarrow> P d (TerminatorStep le d)"
    and "\<And>d d'. bs_Data (dh_BitStream d) \<noteq> [] \<Longrightarrow> fst (ReadBits le (dh_BitStream d) 1) \<noteq> 0 \<Longrightarrow>
           P (LiteralStep le d) d' \<Longrightarrow> P d d'"
    and "\<And>d d'. bs_Data (dh_BitStream d) \<noteq> [] \<Longrightarrow> fst (ReadBits le (dh_BitStream d) 1) = 0 \<Longrightarrow>
           \<not> ReadsTerminator le d \<Longrightarrow> P (ReferenceStep le d) d' \<Longrightarrow> P d d'"
  shows "P d (TokenLoop le d)"
proof -
  have "le' = le \<Longrightarrow> P d (TokenLoop le' d)" for le'
  proof (induction le' d rule: TokenLoop.induct)
    case (1 le' d)
    note le = \<open>le' = le\<close>
    show ?case
    proof (cases "bs_Data (dh_BitStream d) = []")
      case True
      with assms(1) [of d] show ?thesis
        by (simp add: TokenLoop_unfold [of le' d])
    next
      case False
      show ?thesis
      proof (cases "fst (ReadBits le' (dh_BitStream d) 1) \<noteq> 0")
        case True
        have "P (LiteralStep le' d) (TokenLoop le' (LiteralStep le' d))"
          using "1.IH"(1) [OF False refl True refl le] by (simp add: LiteralStep_def Let_def)
        with assms(3) [of d "TokenLoop le (LiteralStep le d)"] False True le show ?thesis
          by (simp add: TokenLoop_unfold [of le d])
      next
        case f: False
        show ?thesis
        proof (cases "ReadsTerminator le' d")
          case True
          with assms(2) [of d] False f le show ?thesis
            by (simp add: TokenLoop_unfold [of le d])
        next
          case e: False
          with False f have e': "unat (fst (ReadBits le' (snd (ReadBits le' (dh_BitStream d) 1))
              INDEX_BIT_COUNT)) \<noteq> END_OF_STREAM"
            by (simp add: ReadsTerminator_def)
          have "P (ReferenceStep le' d) (TokenLoop le' (ReferenceStep le' d))"
            using "1.IH"(2) [OF False refl f refl e' refl refl le]
            by (simp add: ReferenceStep_def Let_def)
          with assms(4) [of d "TokenLoop le (ReferenceStep le d)"] False f e le show ?thesis
            by (simp add: TokenLoop_unfold [of le d])
        qed
      qed
    qed
  qed
  then show ?thesis by simp
qed

lemma ReadBits_BitsAhead: "BitsAhead (snd (ReadBits le bs n)) \<le> BitsAhead bs"
  using ReadBits_measure [of le bs n] by (simp add: BitsAhead_def)

lemma ReadBits_BitsAhead_1:
  "bs_Data bs \<noteq> [] \<Longrightarrow> BitsAhead (snd (ReadBits le bs 1)) < BitsAhead bs"
  using ReadBits_measure_1 [of bs le] by (simp add: BitsAhead_def)

lemma LiteralStep_BitStream:
  "dh_BitStream (LiteralStep le d) = snd (ReadBits le (snd (ReadBits le (dh_BitStream d) 1)) 8)"
  by (simp add: LiteralStep_def Let_def)

lemma ReferenceStep_BitStream:
  "dh_BitStream (ReferenceStep le d) =
     snd (ReadBits le (snd (ReadBits le (snd (ReadBits le (dh_BitStream d) 1)) INDEX_BIT_COUNT))
       LENGTH_BIT_COUNT)"
  by (simp add: ReferenceStep_def Let_def)

lemma TerminatorStep_BitStream:
  "dh_BitStream (TerminatorStep le d) =
     snd (ReadBits le (snd (ReadBits le (dh_BitStream d) 1)) INDEX_BIT_COUNT)"
  by (simp add: TerminatorStep_def)

lemma Step_BitsAhead:
  assumes "bs_Data (dh_BitStream d) \<noteq> []"
  shows "BitsAhead (dh_BitStream (LiteralStep le d)) < BitsAhead (dh_BitStream d)"
    and "BitsAhead (dh_BitStream (ReferenceStep le d)) < BitsAhead (dh_BitStream d)"
    and "BitsAhead (dh_BitStream (TerminatorStep le d)) < BitsAhead (dh_BitStream d)"
proof -
  let ?b1 = "snd (ReadBits le (dh_BitStream d) 1)"
  note a = ReadBits_BitsAhead_1 [OF assms, of le]
  show "BitsAhead (dh_BitStream (LiteralStep le d)) < BitsAhead (dh_BitStream d)"
    using a ReadBits_BitsAhead [of le ?b1 8] by (simp add: LiteralStep_BitStream)
  show "BitsAhead (dh_BitStream (TerminatorStep le d)) < BitsAhead (dh_BitStream d)"
    using a ReadBits_BitsAhead [of le ?b1 INDEX_BIT_COUNT] by (simp add: TerminatorStep_BitStream)
  show "BitsAhead (dh_BitStream (ReferenceStep le d)) < BitsAhead (dh_BitStream d)"
    using a ReadBits_BitsAhead [of le ?b1 INDEX_BIT_COUNT]
      ReadBits_BitsAhead [of le "snd (ReadBits le ?b1 INDEX_BIT_COUNT)" LENGTH_BIT_COUNT]
    by (simp add: ReferenceStep_BitStream)
qed

lemma Step_suffix:
  "\<exists>pre. bs_Data (dh_BitStream d) = pre @ bs_Data (dh_BitStream (LiteralStep le d))"
  "\<exists>pre. bs_Data (dh_BitStream d) = pre @ bs_Data (dh_BitStream (ReferenceStep le d))"
  "\<exists>pre. bs_Data (dh_BitStream d) = pre @ bs_Data (dh_BitStream (TerminatorStep le d))"
proof -
  let ?b1 = "snd (ReadBits le (dh_BitStream d) 1)"
  let ?b2 = "snd (ReadBits le ?b1 INDEX_BIT_COUNT)"
  obtain p1 where p1: "bs_Data (dh_BitStream d) = p1 @ bs_Data ?b1"
    using ReadBits_suffix by blast
  obtain p2 where p2: "bs_Data ?b1 = p2 @ bs_Data (snd (ReadBits le ?b1 8))"
    using ReadBits_suffix by blast
  obtain p3 where p3: "bs_Data ?b1 = p3 @ bs_Data ?b2"
    using ReadBits_suffix by blast
  obtain p4 where p4: "bs_Data ?b2 = p4 @ bs_Data (snd (ReadBits le ?b2 LENGTH_BIT_COUNT))"
    using ReadBits_suffix by blast
  show "\<exists>pre. bs_Data (dh_BitStream d) = pre @ bs_Data (dh_BitStream (LiteralStep le d))"
    using p1 p2 by (intro exI [of _ "p1 @ p2"]) (simp add: LiteralStep_BitStream)
  show "\<exists>pre. bs_Data (dh_BitStream d) = pre @ bs_Data (dh_BitStream (TerminatorStep le d))"
    using p1 p3 by (intro exI [of _ "p1 @ p3"]) (simp add: TerminatorStep_BitStream)
  show "\<exists>pre. bs_Data (dh_BitStream d) = pre @ bs_Data (dh_BitStream (ReferenceStep le d))"
    using p1 p3 p4 by (intro exI [of _ "p1 @ p3 @ p4"]) (simp add: ReferenceStep_BitStream)
qed

lemma TokenLoop_BitsAhead:
  "BitsAhead (dh_BitStream (TokenLoop le d)) \<le> BitsAhead (dh_BitStream d) \<and>
   (bs_Data (dh_BitStream d) \<noteq> [] \<longrightarrow>
      BitsAhead (dh_BitStream (TokenLoop le d)) < BitsAhead (dh_BitStream d))"
proof (rule TokenLoop_rule [where P = "\<lambda>d d'. BitsAhead (dh_BitStream d') \<le> BitsAhead (dh_BitStream d) \<and>
   (bs_Data (dh_BitStream d) \<noteq> [] \<longrightarrow> BitsAhead (dh_BitStream d') < BitsAhead (dh_BitStream d))"],
   goal_cases)
  case (1 d)
  then show ?case by simp
next
  case (2 d)
  then show ?case
    using Step_BitsAhead(3) [of d le] by (simp add: ReadsTerminator_def)
next
  case (3 d d')
  then show ?case
    using Step_BitsAhead(1) [of d le] by simp
next
  case (4 d d')
  then show ?case
    using Step_BitsAhead(2) [of d le] by simp
qed

lemma TokenLoop_suffix:
  "\<exists>pre. bs_Data (dh_BitStream d) = pre @ bs_Data (dh_BitStream (TokenLoop le d))"
proof (rule TokenLoop_rule [where P = "\<lambda>d d'. \<exists>pre. bs_Data (dh_BitStream d) = pre @ bs_Data (dh_BitStream d')"],
   goal_cases)
  case (1 d)
  then show ?case by simp
next
  case (2 d)
  show ?case by (rule Step_suffix(3))
next
  case (3 d d')
  with Step_suffix(1) [of d le] show ?case
    by (metis append.assoc)
next
  case (4 d d')
  with Step_suffix(2) [of d le] show ?case
    by (metis append.assoc)
qed

lemma TokenLoop_halted:
  "bs_Data (dh_BitStream (TokenLoop le d)) \<noteq> [] \<longrightarrow>
     (\<exists>d0. ReadsTerminator le d0 \<and> TokenLoop le d = TerminatorStep le d0)"
proof (rule TokenLoop_rule [where P = "\<lambda>d d'. bs_Data (dh_BitStream d') \<noteq> [] \<longrightarrow>
     (\<exists>d0. ReadsTerminator le d0 \<and> d' = TerminatorStep le d0)"], goal_cases)
  case (1 d)
  then show ?case by simp
next
  case (2 d)
  then show ?case by blast
next
  case (3 d d')
  then show ?case by simp
next
  case (4 d d')
  then show ?case by simp
qed

lemma TokenLoop_Cookie: "dh_Cookie (TokenLoop le d) = dh_Cookie d"
proof (rule TokenLoop_rule [where P = "\<lambda>d d'. dh_Cookie d' = dh_Cookie d"], goal_cases)
  case (1 d)
  then show ?case by simp
next
  case (2 d)
  then show ?case by (simp add: TerminatorStep_def)
next
  case (3 d d')
  then show ?case by (simp add: LiteralStep_def Let_def)
next
  case (4 d d')
  then show ?case by (simp add: ReferenceStep_def Let_def)
qed

lemma CopyMatch_unfold:
  "CopyMatch le n i d =
     (if n = 0 then d
      else CopyMatch le (n - 1) (i + 1) (OutputByte le (ucast (dh_Window d (MOD_WINDOW i))) d))"
  by (cases n) simp_all

lemmas decoder_run = decompress_chunks_def CreateDecompressor_def calloc_Decompressor_def
  InitBitStream_d_def internalFeedDecompressor_def FeedBitStream_def TokenLoop.simps ReadBits_def
  ReadBits_take_def OutputByte_def CopyMatch_unfold DeleteDecompressor_def
  byteswap_if_little_endian_def Let_def const_defs mask_eq_exp_minus_1

lemmas encoder_run = compress_chunks_def CreateCompressor_def zero_Compressor_def
  FeedCompressor_body_def numDataBytes_def MemoryBytes_def FeedFill.simps FeedReplace.simps
  EmitToken_def
  WriteBits_def dec32_def InitBitStream_c_def CleanupBitStream_def DeleteCompressor_def
  FlushCompressor_def FlushLoop.simps FlushReplace.simps Advance_def NewData_def AddString_def
  AddString_loop.simps PhraseCompare.simps DeleteString_def WalkRight.simps ReplaceNode_def
  AttachLeft_def AttachRight_def set_tree_array_simps byteswap_if_little_endian_def Let_def
  const_defs

lemma internalFeedDecompressor_Error:
  "bs_Error (dh_BitStream (internalFeedDecompressor le d dat)) = bs_Error (dh_BitStream d)"
  by (simp add: internalFeedDecompressor_def TokenLoop_Error FeedBitStream_def)

lemma FeedDecompressor_chunks_Error:
  "bs_Error (dh_BitStream (FeedDecompressor_chunks le d cs)) = bs_Error (dh_BitStream d)"
  by (induction cs arbitrary: d) (simp_all add: internalFeedDecompressor_Error)

lemma decompress_never_DATAMISSING:
  "fst (decompress_chunks le chunks) \<noteq> Some COMP_ERR_DATAMISSING"
  by (simp add: decompress_chunks_def DeleteDecompressor_def Let_def FeedDecompressor_chunks_Error
      CreateDecompressor_def InitBitStream_d_def)


lemma OutputByte_BytesOut:
  "dh_BytesLeft d \<le> 4 \<Longrightarrow>
   BytesOut (OutputByte le c d) = BytesOut d + 1 \<and> dh_BytesLeft (OutputByte le c d) \<le> 4"
  by (auto simp: OutputByte_def BytesOut_def Let_def)

lemma CopyMatch_BytesOut:
  "dh_BytesLeft d \<le> 4 \<Longrightarrow>
   BytesOut (CopyMatch le n i d) = BytesOut d + n \<and> dh_BytesLeft (CopyMatch le n i d) \<le> 4"
proof (induction n arbitrary: i d)
  case 0
  then show ?case by simp
next
  case (Suc n)
  from OutputByte_BytesOut [OF Suc.prems, of le "ucast (dh_Window d (MOD_WINDOW i))"]
    Suc.IH [of "OutputByte le (ucast (dh_Window d (MOD_WINDOW i))) d" "i + 1"]
  show ?case by simp
qed

lemma LiteralStep_BytesOut:
  assumes "dh_BytesLeft d \<le> 4"
  shows "BytesOut (LiteralStep le d) = BytesOut d + 1 \<and> dh_BytesLeft (LiteralStep le d) \<le> 4"
proof -
  define d2 where
    "d2 = d\<lparr>dh_BitStream := snd (ReadBits le (snd (ReadBits le (dh_BitStream d) 1)) 8)\<rparr>"
  have "dh_BytesLeft d2 \<le> 4" and "BytesOut d2 = BytesOut d"
    using assms by (simp_all add: d2_def BytesOut_def)
  moreover have "LiteralStep le d
      = OutputByte le (fst (ReadBits le (snd (ReadBits le (dh_BitStream d) 1)) 8)) d2"
    by (simp add: LiteralStep_def Let_def d2_def)
  ultimately show ?thesis
    using OutputByte_BytesOut [of d2 le] by simp
qed

lemma ReferenceStep_BytesOut:
  assumes "dh_BytesLeft d \<le> 4" and "fst (ReadBits le (dh_BitStream d) 1) = 0"
  shows "BytesOut (ReferenceStep le d) = BytesOut d + TokenBytes le d \<and>
         dh_BytesLeft (ReferenceStep le d) \<le> 4"
proof -
  define r2 where "r2 = ReadBits le (snd (ReadBits le (dh_BitStream d) 1)) INDEX_BIT_COUNT"
  define r3 where "r3 = ReadBits le (snd r2) LENGTH_BIT_COUNT"
  define d2 where "d2 = d\<lparr>dh_BitStream := snd r3\<rparr>"
  have "dh_BytesLeft d2 \<le> 4" and "BytesOut d2 = BytesOut d"
    using assms by (simp_all add: d2_def BytesOut_def)
  moreover have "ReferenceStep le d
      = CopyMatch le (unat (fst r3) + BREAK_EVEN + 1) (unat (fst r2)) d2"
    by (simp add: ReferenceStep_def Let_def d2_def r2_def r3_def)
  moreover have "TokenBytes le d = unat (fst r3) + BREAK_EVEN + 1"
    using assms(2) by (simp add: TokenBytes_def Let_def r2_def r3_def)
  ultimately show ?thesis
    using CopyMatch_BytesOut [of d2 le "unat (fst r3) + BREAK_EVEN + 1" "unat (fst r2)"] by simp
qed

lemma TerminatorStep_BytesOut:
  "BytesOut (TerminatorStep le d) = BytesOut d"
  by (simp add: TerminatorStep_def BytesOut_def)

lemma TokenBytes_pos: "0 < TokenBytes le d"
  by (simp add: TokenBytes_def Let_def)

lemma RunBytes_ge: "n \<le> RunBytes le n d"
proof (induction n arbitrary: d)
  case 0
  show ?case by simp
next
  case (Suc n)
  from Suc [of "TokenStep le d"] TokenBytes_pos [of le d] show ?case
    by simp
qed

lemma TokenLoop_run:
  "\<exists>n. OrdinaryRun le n d \<and>
       (ReadsTerminator le (TokenRun le n d) \<and> TokenLoop le d = TerminatorStep le (TokenRun le n d)
        \<or> bs_Data (dh_BitStream (TokenRun le n d)) = [] \<and> TokenLoop le d = TokenRun le n d) \<and>
       (OrdinaryToken le d \<longrightarrow> 0 < n) \<and>
       (dh_BytesLeft d \<le> 4 \<longrightarrow> BytesOut (TokenLoop le d) = BytesOut d + RunBytes le n d)"
proof (rule TokenLoop_rule [where P = "\<lambda>d r. \<exists>n. OrdinaryRun le n d \<and>
       (ReadsTerminator le (TokenRun le n d) \<and> r = TerminatorStep le (TokenRun le n d)
        \<or> bs_Data (dh_BitStream (TokenRun le n d)) = [] \<and> r = TokenRun le n d) \<and>
       (OrdinaryToken le d \<longrightarrow> 0 < n) \<and>
       (dh_BytesLeft d \<le> 4 \<longrightarrow> BytesOut r = BytesOut d + RunBytes le n d)"], goal_cases)
  case (1 d)
  then show ?case
    by (intro exI [of _ 0]) (simp add: OrdinaryToken_def)
next
  case (2 d)
  then show ?case
    by (intro exI [of _ 0]) (simp add: OrdinaryToken_def TerminatorStep_BytesOut)
next
  case (3 d r)
  from 3(3) obtain n where n: "OrdinaryRun le n (LiteralStep le d)"
    "ReadsTerminator le (TokenRun le n (LiteralStep le d)) \<and>
       r = TerminatorStep le (TokenRun le n (LiteralStep le d))
     \<or> bs_Data (dh_BitStream (TokenRun le n (LiteralStep le d))) = [] \<and>
       r = TokenRun le n (LiteralStep le d)"
    "dh_BytesLeft (LiteralStep le d) \<le> 4 \<longrightarrow>
       BytesOut r = BytesOut (LiteralStep le d) + RunBytes le n (LiteralStep le d)"
    by blast
  have s: "TokenStep le d = LiteralStep le d"
    using 3(2) by (simp add: TokenStep_def)
  have o: "OrdinaryToken le d"
    using 3(1,2) by (simp add: OrdinaryToken_def ReadsTerminator_def)
  have b: "TokenBytes le d = 1"
    using 3(2) by (simp add: TokenBytes_def)
  show ?case
    using n s o b LiteralStep_BytesOut [of d le]
    by (intro exI [of _ "Suc n"]) auto
next
  case (4 d r)
  from 4(4) obtain n where n: "OrdinaryRun le n (ReferenceStep le d)"
    "ReadsTerminator le (TokenRun le n (ReferenceStep le d)) \<and>
       r = TerminatorStep le (TokenRun le n (ReferenceStep le d))
     \<or> bs_Data (dh_BitStream (TokenRun le n (ReferenceStep le d))) = [] \<and>
       r = TokenRun le n (ReferenceStep le d)"
    "dh_BytesLeft (ReferenceStep le d) \<le> 4 \<longrightarrow>
       BytesOut r = BytesOut (ReferenceStep le d) + RunBytes le n (ReferenceStep le d)"
    by blast
  have s: "TokenStep le d = ReferenceStep le d"
    using 4(2) by (simp add: TokenStep_def)
  have o: "OrdinaryToken le d"
    using 4(1,3) by (simp add: OrdinaryToken_def)
  show ?case
    using n s o ReferenceStep_BytesOut [of d le] 4(2)
    by (intro exI [of _ "Suc n"]) auto
qed

lemmas decoder_notions = OrdinaryToken_def ReadsTerminator_def Refill_def BytesOut_def


lemma FeedCompressor_body_take:
  "FeedCompressor_body le ch dat =
     FeedBytes le ch (take (numDataBytes dat) (concat (map (MemoryBytes le) dat)))"
  by (simp add: FeedCompressor_body_def FeedBytes_def)

lemma length_MemoryBytes: "length (concat (map (MemoryBytes le) dat)) = length dat * 4"
  by (induction dat) (simp_all add: MemoryBytes_def Let_def)

lemma FeedCompressor_body_FeedBytes:
  assumes "length dat < 2 ^ 30"
  shows "FeedCompressor_body le ch dat = FeedBytes le ch (concat (map (MemoryBytes le) dat))"
proof -
  from assms have "numDataBytes dat = length dat * 4"
    by (simp add: numDataBytes_def)
  then show ?thesis
    by (simp add: FeedCompressor_body_take length_MemoryBytes)
qed

lemma EmitToken_SecondPass:
  "EmitToken le (st\<lparr>ch_SecondPass := x\<rparr>) = (EmitToken le st)\<lparr>ch_SecondPass := x\<rparr>"
  by (simp add: EmitToken_def Let_def)

lemma Advance_SecondPass:
  "Advance (st\<lparr>ch_SecondPass := x\<rparr>) = map_option (\<lambda>s. s\<lparr>ch_SecondPass := x\<rparr>) (Advance st)"
  by (simp add: Advance_def Let_def split: option.splits)

lemma NewData_SecondPass:
  "NewData b (st\<lparr>ch_SecondPass := x\<rparr>) = map_option (\<lambda>s. s\<lparr>ch_SecondPass := x\<rparr>) (NewData b st)"
  by (cases st) (simp add: NewData_def Advance_def Let_def split: option.splits)

lemma SecondPass_first:
  "st\<lparr>ch_SecondPass := x, ch_ReplaceCnt := r, ch_Tree := t\<rparr> =
   st\<lparr>ch_ReplaceCnt := r, ch_Tree := t, ch_SecondPass := x\<rparr>"
  by (cases st) simp

lemma FeedReplace_SecondPass:
  "FeedReplace le src (st\<lparr>ch_SecondPass := x\<rparr>) = FeedReplace le src st"
proof (induction le src st rule: FeedReplace.induct)
  case (1 le src st)
  show ?case
  proof (cases "ch_ReplaceCnt st = 0")
    case True
    have "EmitToken le (st\<lparr>ch_SecondPass := x, ch_ReplaceCnt := dec32 0\<rparr>) =
            (EmitToken le (st\<lparr>ch_ReplaceCnt := dec32 0\<rparr>))\<lparr>ch_SecondPass := x\<rparr>"
      by (cases st) (simp add: EmitToken_def Let_def)
    with "1.IH"(1) [OF True] True show ?thesis
      by (simp add: FeedReplace.simps [of le src st]
          FeedReplace.simps [of le src "st\<lparr>ch_SecondPass := x\<rparr>"])
  next
    case False
    show ?thesis
    proof (cases "DeleteString (ch_Tree st) (MOD_WINDOW (ch_CurrentPos st + LOOK_AHEAD_SIZE))")
      case None
      with False show ?thesis
        by (simp add: FeedReplace.simps [of le src st]
            FeedReplace.simps [of le src "st\<lparr>ch_SecondPass := x\<rparr>"])
    next
      case (Some t)
      define st1 where "st1 = st\<lparr>ch_ReplaceCnt := dec32 (ch_ReplaceCnt st), ch_Tree := t\<rparr>"
      show ?thesis
      proof (cases src)
        case Nil
        with False Some show ?thesis
          by (simp add: FeedReplace.simps [of le "[]" st]
              FeedReplace.simps [of le "[]" "st\<lparr>ch_SecondPass := x\<rparr>"])
      next
        case (Cons b rest)
        show ?thesis
        proof (cases "NewData b st1")
          case None
          with False Some Cons NewData_SecondPass [where b = b and st = st1 and x = x] show ?thesis
            by (simp add: FeedReplace.simps [of le "b # rest" st]
                FeedReplace.simps [of le "b # rest" "st\<lparr>ch_SecondPass := x\<rparr>"] st1_def
                SecondPass_first)
        next
          case (Some st2)
          from "1.IH"(2) [OF False \<open>DeleteString _ _ = Some t\<close> st1_def Cons Some]
          have "FeedReplace le rest (st2\<lparr>ch_SecondPass := x\<rparr>) = FeedReplace le rest st2" .
          with False \<open>DeleteString _ _ = Some t\<close> Cons Some NewData_SecondPass [where b = b and st = st1 and x = x]
          show ?thesis
            by (simp add: FeedReplace.simps [of le "b # rest" st]
                FeedReplace.simps [of le "b # rest" "st\<lparr>ch_SecondPass := x\<rparr>"] st1_def
                SecondPass_first)
        qed
      qed
    qed
  qed
qed

lemma FeedReplace_append:
  "FeedReplace le (s1 @ s2) st =
     (case FeedReplace le s1 st of None \<Rightarrow> None | Some st' \<Rightarrow> FeedBytes le st' s2)"
proof (induction le s1 st rule: FeedReplace.induct)
  case (1 le s1 st)
  show ?case
  proof (cases "ch_ReplaceCnt st = 0")
    case True
    from "1.IH"(1) [OF True] True show ?thesis
      by (simp add: FeedReplace.simps [of le s1 st] FeedReplace.simps [of le "s1 @ s2" st])
  next
    case False
    show ?thesis
    proof (cases "DeleteString (ch_Tree st) (MOD_WINDOW (ch_CurrentPos st + LOOK_AHEAD_SIZE))")
      case None
      with False show ?thesis
        by (simp add: FeedReplace.simps [of le s1 st] FeedReplace.simps [of le "s1 @ s2" st])
    next
      case (Some t)
      define st1 where "st1 = st\<lparr>ch_ReplaceCnt := dec32 (ch_ReplaceCnt st), ch_Tree := t\<rparr>"
      show ?thesis
      proof (cases s1)
        case Nil
        show ?thesis
        proof (cases s2)
          case Nil
          with False Some \<open>s1 = []\<close> show ?thesis
            by (simp add: FeedReplace.simps [of le "[]" st] FeedBytes_def)
        next
          case (Cons b rest)
          with False Some \<open>s1 = []\<close> NewData_SecondPass [where b = b and st = st1 and x = True] show ?thesis
            by (simp add: FeedReplace.simps [of le "[]" st] FeedReplace.simps [of le "b # rest" st]
                FeedBytes_def st1_def FeedReplace_SecondPass split: option.splits)
        qed
      next
        case (Cons b rest)
        show ?thesis
        proof (cases "NewData b st1")
          case None
          with False Some Cons show ?thesis
            by (simp add: FeedReplace.simps [of le "b # rest" st]
                FeedReplace.simps [of le "b # rest @ s2" st] st1_def)
        next
          case (Some st2)
          from "1.IH"(2) [OF False \<open>DeleteString _ _ = Some t\<close> st1_def Cons Some]
          have "FeedReplace le (rest @ s2) st2 =
                  (case FeedReplace le rest st2 of None \<Rightarrow> None | Some st' \<Rightarrow> FeedBytes le st' s2)" .
          with False \<open>DeleteString _ _ = Some t\<close> Cons Some show ?thesis
            by (simp add: FeedReplace.simps [of le "b # rest" st]
                FeedReplace.simps [of le "b # rest @ s2" st] st1_def)
        qed
      qed
    qed
  qed
qed

lemma FeedFill_append:
  "\<not> ch_SecondPass st \<Longrightarrow>
   FeedFill le (s1 @ s2) st =
     (case FeedFill le s1 st of None \<Rightarrow> None | Some st' \<Rightarrow> FeedBytes le st' s2)"
proof (induction le s1 st rule: FeedFill.induct)
  case (1 le s1 st)
  show ?case
  proof (cases "ch_LookAhead st \<le> int LOOK_AHEAD_SIZE")
    case False
    then show ?thesis
      by (simp add: FeedFill.simps [of le s1 st] FeedFill.simps [of le "s1 @ s2" st]
          FeedReplace_append)
  next
    case True
    show ?thesis
    proof (cases s1)
      case Nil
      with True "1.prems" show ?thesis
        by (cases s2) (simp_all add: FeedFill.simps [of le "[]" st] FeedBytes_def)
    next
      case (Cons b rest)
      from "1.IH" [OF True Cons] "1.prems" True Cons show ?thesis
        by (simp add: FeedFill.simps [of le "b # rest" st]
            FeedFill.simps [of le "b # rest @ s2" st])
    qed
  qed
qed

lemma FeedBytes_append:
  "FeedBytes le st (s1 @ s2) =
     (case FeedBytes le st s1 of None \<Rightarrow> None | Some st' \<Rightarrow> FeedBytes le st' s2)"
proof (cases s1)
  case Nil
  then show ?thesis by (simp add: FeedBytes_def)
next
  case (Cons b rest)
  show ?thesis
  proof (cases "ch_SecondPass st")
    case True
    with Cons show ?thesis
      by (simp add: FeedBytes_def [of le st] FeedReplace_append split: option.splits)
  next
    case False
    with Cons FeedFill_append [OF False, of le "b # rest" s2] show ?thesis
      by (simp add: FeedBytes_def [of le st])
  qed
qed

lemma FeedCompressor_body_append:
  assumes "length (xs @ ys) < 2 ^ 30"
  shows "FeedCompressor_body le ch (xs @ ys) =
     (case FeedCompressor_body le ch xs of None \<Rightarrow> None | Some ch' \<Rightarrow> FeedCompressor_body le ch' ys)"
proof -
  from assms have "length xs < 2 ^ 30" and "length ys < 2 ^ 30"
    by simp_all
  with assms show ?thesis
    by (simp add: FeedCompressor_body_FeedBytes FeedBytes_append split: option.splits)
qed

lemma FeedCompressor_chunks_concat:
  "length (concat chunks) < 2 ^ 30 \<Longrightarrow>
   FeedCompressor_chunks le ch chunks = FeedCompressor_body le ch (concat chunks)"
proof (induction chunks arbitrary: ch)
  case Nil
  show ?case by (simp add: FeedCompressor_body_def)
next
  case (Cons c cs)
  from Cons.prems have "length (concat cs) < 2 ^ 30" and "length (c @ concat cs) < 2 ^ 30"
    by simp_all
  with Cons.IH show ?case
    by (simp add: FeedCompressor_body_append split: option.splits)
qed

lemma compress_chunks_concat:
  assumes "length (concat chunks) < 2 ^ 30"
  shows "compress_chunks le buf chunks = compress_chunks le buf [concat chunks]"
proof -
  have "FeedCompressor_chunks le (CreateCompressor buf True) [concat chunks]
      = FeedCompressor_body le (CreateCompressor buf True) (concat chunks)"
    by (simp split: option.splits)
  with FeedCompressor_chunks_concat [OF assms, of le "CreateCompressor buf True"] show ?thesis
    by (simp only: compress_chunks_def)
qed

lemma compress_chunks_cong:
  assumes "concat cs = X" and "length X < 2 ^ 30"
  shows "compress_chunks le buf cs = compress_chunks le buf [X]"
  using compress_chunks_concat [of cs le buf] assms by simp

lemma replicate_first: "0 < n \<Longrightarrow> replicate n x = x # replicate (n - 1) x"
  by (cases n) simp_all

lemma FeedCompressor_body_wrap_0:
  "FeedCompressor_body le ch (replicate 1073741824 w) = Some ch"
  by (simp add: FeedCompressor_body_def numDataBytes_def)

lemma FeedCompressor_body_wrap_1:
  "FeedCompressor_body le ch (replicate 1073741824 w @ [v]) = FeedCompressor_body le ch [w]"
proof -
  have n: "numDataBytes (replicate 1073741824 w @ [v]) = 4"
    by (simp add: numDataBytes_def)
  have "replicate 1073741824 w = w # replicate (1073741824 - 1) w"
    by (rule replicate_first) simp
  then have "take 4 (concat (map (MemoryBytes le) (replicate 1073741824 w @ [v])))
      = MemoryBytes le w"
    by (simp add: MemoryBytes_def Let_def)
  with n show ?thesis
    by (simp add: FeedCompressor_body_def numDataBytes_def MemoryBytes_def Let_def)
qed


section \<open>Properties\<close>

text \<open>C9, as amended. When the words are exhausted, a request for more bits than the
  buffer holds returns 0, sets the error flag and changes nothing else; the flag stays set
  and every later request that again exceeds the buffered bits returns 0 as well. (A later
  request that fits into the bits still buffered is served from the buffer.)\<close>

theorem ReadBits_underflow:
  "bs_Data bs = [] \<Longrightarrow> bs_BitsLeft bs < n \<Longrightarrow>
     ReadBits le bs n = (0, bs\<lparr>bs_Error := True\<rparr>) \<and>
     (\<forall>m. bs_BitsLeft bs < m \<longrightarrow>
        ReadBits le (snd (ReadBits le bs n)) m = (0, bs\<lparr>bs_Error := True\<rparr>))"
  by (simp add: ReadBits_def)

theorem ReadBits_underflow_witness:
  "ReadBits True \<lparr>bs_Data = [], bs_BitsLeft = 4, bs_BitBuffer = 15, bs_Error = False\<rparr> 8
     = (0, \<lparr>bs_Data = [], bs_BitsLeft = 4, bs_BitBuffer = 15, bs_Error = True\<rparr>) \<and>
   ReadBits True
     (snd (ReadBits True \<lparr>bs_Data = [], bs_BitsLeft = 4, bs_BitBuffer = 15, bs_Error = False\<rparr> 8)) 12
     = (0, \<lparr>bs_Data = [], bs_BitsLeft = 4, bs_BitBuffer = 15, bs_Error = True\<rparr>)"
proof -
  let ?bs = "\<lparr>bs_Data = [], bs_BitsLeft = 4, bs_BitBuffer = 15, bs_Error = False\<rparr>"
  have h1: "bs_Data ?bs = []" and h2: "bs_BitsLeft ?bs < 8"
    by simp_all
  note r = ReadBits_underflow [OF h1 h2, of True]
  from r have a: "ReadBits True ?bs 8 = (0, ?bs\<lparr>bs_Error := True\<rparr>)"
    by (rule conjunct1)
  from r have "\<forall>m. bs_BitsLeft ?bs < m \<longrightarrow>
      ReadBits True (snd (ReadBits True ?bs 8)) m = (0, ?bs\<lparr>bs_Error := True\<rparr>)"
    by (rule conjunct2)
  then have b: "ReadBits True (snd (ReadBits True ?bs 8)) 12 = (0, ?bs\<lparr>bs_Error := True\<rparr>)"
    by simp
  from a b show ?thesis by simp
qed

text \<open>C9, as stated, fails: with four set bits left in the buffer and no words, a request
  for 8 bits returns 0 and sets the flag, and the next request, for 1 bit, returns 1.\<close>

theorem ReadBits_after_error_counterexample:
  "fst (ReadBits True \<lparr>bs_Data = [], bs_BitsLeft = 4, bs_BitBuffer = 15, bs_Error = False\<rparr> 8) = 0 \<and>
   bs_Error (snd (ReadBits True \<lparr>bs_Data = [], bs_BitsLeft = 4, bs_BitBuffer = 15, bs_Error = False\<rparr> 8)) \<and>
   fst (ReadBits True
     (snd (ReadBits True \<lparr>bs_Data = [], bs_BitsLeft = 4, bs_BitBuffer = 15, bs_Error = False\<rparr> 8)) 1) = 1"
  by (simp add: ReadBits_def ReadBits_take_def)

text \<open>C3, as amended. Creating an encoder in any work buffer, feeding it zero words and
  closing it produces exactly one output word. Its top 31 bits are two literal tokens, each
  a tag bit 1 followed by a window byte (those at positions 1 and 2, which nothing has
  written), and the 13 zero bits of the terminator; with a zero-filled window the word is
  0x80400000 before the byte swap of a little-endian host. Decoding that word yields zero
  output words and no error.\<close>

theorem empty_input:
  "compress_chunks le buf [[]] =
     Some [byteswap_if_little_endian le
             (0x80000000 OR push_bit 23 (ucast (ch_Window buf 1)) OR 0x400000
                OR push_bit 14 (ucast (ch_Window buf 2)))] \<and>
   decompress_chunks le
     [[byteswap_if_little_endian le
             (0x80000000 OR push_bit 23 (ucast (ch_Window buf 1)) OR 0x400000
                OR push_bit 14 (ucast (ch_Window buf 2)))]] = (None, [])"
  by (rule empty_input_run)

text \<open>C3, as stated, fails: on a big-endian host and a zero-filled work buffer the single
  output word is 0x80400000, not 0x00000000.\<close>

theorem empty_input_counterexample:
  "compress_chunks False zero_Compressor [[]] = Some [0x80400000] \<and>
   compress_chunks False zero_Compressor [[]] \<noteq> Some [0x00000000]"
  using empty_input_run [of False zero_Compressor]
  by (simp add: zero_Compressor_def byteswap_if_little_endian_def)

text \<open>C8, as amended. \<open>CreateCompressor\<close> leaves the window bytes of the work buffer as
  they were; it sets every tree node to all-\<open>UNUSED\<close> except that
  \<open>tree[TREE_ROOT].right_child = 1\<close> and node 1's parent is \<open>TREE_ROOT\<close>, and sets
  \<open>look_ahead = 1\<close> and \<open>current_pos = 1\<close>.\<close>

theorem CreateCompressor_state:
  "ch_Window (CreateCompressor buf a) = ch_Window buf \<and>
   ch_Tree (CreateCompressor buf a) =
     (\<lambda>n. if n = 1 then \<lparr>cn_Parent = TREE_ROOT, cn_LeftChild = UNUSED, cn_RightChild = UNUSED\<rparr>
          else if n = TREE_ROOT then \<lparr>cn_Parent = UNUSED, cn_LeftChild = UNUSED, cn_RightChild = 1\<rparr>
          else \<lparr>cn_Parent = UNUSED, cn_LeftChild = UNUSED, cn_RightChild = UNUSED\<rparr>) \<and>
   ch_LookAhead (CreateCompressor buf a) = 1 \<and>
   ch_CurrentPos (CreateCompressor buf a) = 1"
  by (auto simp: CreateCompressor_def)

text \<open>C8, as stated, fails: created in a buffer whose window bytes are all 0xAA, the
  encoder's window still holds 0xAA at every position.\<close>

theorem CreateCompressor_window_counterexample:
  "ch_Window (CreateCompressor (zero_Compressor\<lparr>ch_Window := (\<lambda>_. 0xAA)\<rparr>) True) 5 = 0xAA \<and>
   ch_Window (CreateCompressor (zero_Compressor\<lparr>ch_Window := (\<lambda>_. 0xAA)\<rparr>) True) 5 \<noteq> 0"
  by (simp add: CreateCompressor_def)


text \<open>C5, as amended. The descent of \<open>AddString\<close> updates the recorded best match at a
  test node whenever the common-prefix length there is at least the current best length
  (\<open>i >= matchLen\<close>). So the match it returns is the last node of the descent path whose
  common-prefix length is maximal: every node compared before it has a length at most the
  returned one, every node compared after it a strictly smaller one; on equal match length
  the most recently compared node wins.\<close>

theorem AddString_tie_break:
  assumes "newNode \<noteq> END_OF_STREAM"
    and "Descent w newNode t (cn_RightChild (t TREE_ROOT)) path"
  shows "\<exists>t' ml mp' ns1 ns2.
     AddString t w newNode mp = Some (t', ml, mp') \<and>
     path = ns1 @ mp' # ns2 \<and>
     PrefixLen w newNode mp' = ml \<and>
     (\<forall>n\<in>set ns1. PrefixLen w newNode n \<le> ml) \<and>
     (\<forall>n\<in>set ns2. PrefixLen w newNode n < ml)"
proof -
  let ?f = "PrefixLen w newNode"
  let ?b = "BestMatch ?f path (0, mp)"
  obtain t' where t': "AddString t w newNode mp = Some (t', ?b)"
    using AddString_loop_Descent [OF assms(2), of 0 mp] assms(1)
    by (auto simp: AddString_def)
  from Descent_nonempty [OF assms(2)] have "\<not> (\<forall>n\<in>set path. ?f n < fst (0 :: nat, mp))"
    by (cases path) auto
  with BestMatch_last_maximal [of ?f path "(0, mp)"]
  obtain ns1 ns2 where "path = ns1 @ snd ?b # ns2" "?f (snd ?b) = fst ?b"
      "\<forall>n\<in>set ns1. ?f n \<le> fst ?b" "\<forall>n\<in>set ns2. ?f n < fst ?b"
    by blast
  with t' show ?thesis
    by (intro exI [of _ t'] exI [of _ "fst ?b"] exI [of _ "snd ?b"] exI [of _ ns1] exI [of _ ns2]) simp
qed


theorem AddString_tie_break_witness:
  "(70::nat) \<noteq> END_OF_STREAM \<and>
   Descent tie_window 70 tie_tree (cn_RightChild (tie_tree TREE_ROOT)) [10, 40] \<and>
   (\<exists>t' ml mp' ns1 ns2.
     AddString tie_tree tie_window 70 0 = Some (t', ml, mp') \<and>
     [10, 40] = ns1 @ mp' # ns2 \<and>
     PrefixLen tie_window 70 mp' = ml \<and>
     (\<forall>n\<in>set ns1. PrefixLen tie_window 70 n \<le> ml) \<and>
     (\<forall>n\<in>set ns2. PrefixLen tie_window 70 n < ml))"
proof -
  have h: "(70::nat) \<noteq> END_OF_STREAM"
    by (simp add: END_OF_STREAM_def)
  from AddString_tie_break [OF h tie_Descent, of 0] h tie_Descent show ?thesis
    by blast
qed


text \<open>C5, as stated, fails: nodes 10 and 40 both share a prefix of length 3 with the new
  phrase at 70; node 40 is compared after node 10, its length 3 does not strictly exceed
  the best length 3 recorded at node 10, and yet the match position returned is 40.\<close>

theorem AddString_tie_counterexample:
  "AddString tie_tree tie_window 70 0 = Some (AttachRight tie_tree 40 70, 3, 40) \<and>
   PrefixLen tie_window 70 10 = 3 \<and> PrefixLen tie_window 70 40 = 3"
  by (simp add: AddString_def AddString_loop_unfold [of _ _ _ 10] AddString_loop_unfold [of _ _ _ 40]
      PrefixLen_def Delta_def tie_compare tie_tree_fields END_OF_STREAM_def UNUSED_def
      LOOK_AHEAD_SIZE_def LENGTH_BIT_COUNT_def BREAK_EVEN_def Let_def)


text \<open>C6. When the descent of \<open>AddString\<close> reaches a node \<open>testNode\<close> of the tree whose
  phrase matches the new one over all \<open>LOOK_AHEAD_SIZE\<close> bytes, it returns that match, and
  in the tree it leaves: the parent of \<open>testNode\<close> points to \<open>newNode\<close> through the link
  that pointed to \<open>testNode\<close>; \<open>newNode\<close> has the parent, left and right links of
  \<open>testNode\<close>; both children have \<open>newNode\<close> as parent; \<open>testNode\<close> is detached; and the
  tree is the old one with \<open>testNode\<close> renamed to \<open>newNode\<close>, so it has as many nodes as
  before.\<close>

theorem full_match_replaces_node:
  assumes "MatchTree t bt" and "testNode \<in> set_tree bt" and "newNode \<notin> set_tree bt"
    and "newNode \<noteq> UNUSED" and "newNode \<noteq> TREE_ROOT"
    and "PrefixLen w newNode testNode = LOOK_AHEAD_SIZE" and "ml \<le> LOOK_AHEAD_SIZE"
  shows "\<exists>t'. AddString_loop w newNode t testNode ml mp = Some (t', LOOK_AHEAD_SIZE, testNode) \<and>
     (cn_LeftChild (t (cn_Parent (t testNode))) = testNode \<longrightarrow>
        cn_LeftChild (t' (cn_Parent (t testNode))) = newNode) \<and>
     (cn_LeftChild (t (cn_Parent (t testNode))) \<noteq> testNode \<longrightarrow>
        cn_RightChild (t (cn_Parent (t testNode))) = testNode \<and>
        cn_RightChild (t' (cn_Parent (t testNode))) = newNode) \<and>
     t' newNode = t testNode \<and>
     (cn_LeftChild (t testNode) \<noteq> UNUSED \<longrightarrow> cn_Parent (t' (cn_LeftChild (t testNode))) = newNode) \<and>
     (cn_RightChild (t testNode) \<noteq> UNUSED \<longrightarrow> cn_Parent (t' (cn_RightChild (t testNode))) = newNode) \<and>
     cn_Parent (t' testNode) = UNUSED \<and>
     MatchTree t' (map_tree (RenameNode testNode newNode) bt) \<and>
     size (map_tree (RenameNode testNode newNode) bt) = size bt"
proof -
  have "AddString_loop w newNode t testNode ml mp
          = Some (ReplaceNode t testNode newNode, LOOK_AHEAD_SIZE, testNode)"
    using assms(6,7) by (subst AddString_loop_unfold) (simp add: Let_def)
  with ReplaceNode_MatchTree [OF assms(1-5)] show ?thesis
    by simp
qed


theorem full_match_replaces_node_witness:
  "MatchTree tie_tree (Node Leaf 10 (Node Leaf 40 Leaf)) \<and>
   (10::nat) \<in> set_tree (Node Leaf 10 (Node Leaf 40 Leaf)) \<and>
   (70::nat) \<notin> set_tree (Node Leaf 10 (Node Leaf 40 Leaf)) \<and>
   PrefixLen (\<lambda>_. 0) 70 10 = LOOK_AHEAD_SIZE \<and>
   (\<exists>t'. AddString_loop (\<lambda>_. 0) 70 tie_tree 10 0 0 = Some (t', LOOK_AHEAD_SIZE, 10) \<and>
      cn_RightChild (t' TREE_ROOT) = 70 \<and> t' 70 = tie_tree 10 \<and> cn_Parent (t' 40) = 70 \<and>
      cn_Parent (t' 10) = UNUSED \<and>
      MatchTree t' (Node Leaf 70 (Node Leaf 40 Leaf)))"
proof -
  have h1: "(10::nat) \<in> set_tree (Node Leaf 10 (Node Leaf 40 Leaf))"
    and h2: "(70::nat) \<notin> set_tree (Node Leaf 10 (Node Leaf 40 Leaf))"
    and h3: "(70::nat) \<noteq> UNUSED" and h4: "(70::nat) \<noteq> TREE_ROOT"
    and h6: "(0::nat) \<le> LOOK_AHEAD_SIZE"
    by (simp_all add: const_defs)
  have h5: "PrefixLen (\<lambda>_. 0) 70 10 = LOOK_AHEAD_SIZE"
    by (simp add: PrefixLen_def PhraseCompare.simps const_defs)
  from full_match_replaces_node [OF tie_tree_MatchTree h1 h2 h3 h4 h5 h6, of 0]
  obtain t' where "AddString_loop (\<lambda>_. 0) 70 tie_tree 10 0 0 = Some (t', LOOK_AHEAD_SIZE, 10)"
    and "cn_LeftChild (tie_tree (cn_Parent (tie_tree 10))) \<noteq> 10 \<longrightarrow>
        cn_RightChild (t' (cn_Parent (tie_tree 10))) = 70"
    and "t' 70 = tie_tree 10"
    and "cn_RightChild (tie_tree 10) \<noteq> UNUSED \<longrightarrow> cn_Parent (t' (cn_RightChild (tie_tree 10))) = 70"
    and "cn_Parent (t' 10) = UNUSED"
    and "MatchTree t' (map_tree (RenameNode 10 70) (Node Leaf 10 (Node Leaf 40 Leaf)))"
    by blast
  then have "AddString_loop (\<lambda>_. 0) 70 tie_tree 10 0 0 = Some (t', LOOK_AHEAD_SIZE, 10) \<and>
      cn_RightChild (t' TREE_ROOT) = 70 \<and> t' 70 = tie_tree 10 \<and> cn_Parent (t' 40) = 70 \<and>
      cn_Parent (t' 10) = UNUSED \<and>
      MatchTree t' (Node Leaf 70 (Node Leaf 40 Leaf))"
    by (simp add: tie_tree_def RenameNode_def const_defs)
  with tie_tree_MatchTree h1 h2 h5 show ?thesis
    by blast
qed


text \<open>C4: what \<open>DeleteString\<close> does on a tree in which the in-order predecessor of the
  deleted node has a left child. The tree of five nodes is ordered; deleting node 80 moves
  its predecessor 60 into its place, but sets the right link of 60's old parent 20 to
  \<open>UNUSED\<close> instead of 60's left child 40: node 40, in the tree before, is not in the tree
  after, although its parent pointer still names 60.\<close>

theorem DeleteString_loses_subtree:
  "MatchTree lost_tree
     (Node (Node Leaf 20 (Node (Node Leaf 40 Leaf) 60 Leaf)) 80 (Node Leaf 100 Leaf)) \<and>
   PhraseOrdered lost_window
     (Node (Node Leaf 20 (Node (Node Leaf 40 Leaf) 60 Leaf)) 80 (Node Leaf 100 Leaf)) \<and>
   (\<exists>t'. DeleteString lost_tree 80 = Some t' \<and>
      MatchTree t' (Node (Node Leaf 20 Leaf) 60 (Node Leaf 100 Leaf)) \<and>
      cn_Parent (t' 40) = 60 \<and> cn_LeftChild (t' 60) = 20 \<and> cn_RightChild (t' 20) = UNUSED)"
proof (intro conjI)
  show "MatchTree lost_tree
     (Node (Node Leaf 20 (Node (Node Leaf 40 Leaf) 60 Leaf)) 80 (Node Leaf 100 Leaf))"
    by (simp add: MatchTree_def lost_tree_def const_defs)
  show "PhraseOrdered lost_window
     (Node (Node Leaf 20 (Node (Node Leaf 40 Leaf) 60 Leaf)) 80 (Node Leaf 100 Leaf))"
    by (simp add: PhraseOrdered_def Delta_def PhraseCompare.simps lost_window_def const_defs)
  have w: "WalkRight lost_tree 60 = Some 60"
    by (subst WalkRight.simps) (simp add: lost_tree_def const_defs)
  show "\<exists>t'. DeleteString lost_tree 80 = Some t' \<and>
      MatchTree t' (Node (Node Leaf 20 Leaf) 60 (Node Leaf 100 Leaf)) \<and>
      cn_Parent (t' 40) = 60 \<and> cn_LeftChild (t' 60) = 20 \<and> cn_RightChild (t' 20) = UNUSED"
    using w
    by (simp add: DeleteString_def Let_def MatchTree_def set_tree_array_simps lost_tree_def const_defs)
qed

text \<open>C2. A truncated stream is not detected. The decoder never reports
  \<open>COMP_ERR_DATAMISSING\<close>, whatever it is fed: the token loop starts a token only while a word
  is unread, and then no read of the token runs out of words, so \<open>bs_Error\<close> stays clear. The
  one word \<open>0x43434343\<close> is compressed to two words; these decode to the input, and the first
  of them alone decodes to nothing, without an error.\<close>

theorem truncated_stream_accepted:
  "fst (decompress_chunks le chunks) \<noteq> Some COMP_ERR_DATAMISSING \<and>
   compress_chunks False zero_Compressor [[0x43434343]] = Some [0xA1800420, 0x10000000] \<and>
   decompress_chunks False [[0xA1800420, 0x10000000]] = (None, [0x43434343]) \<and>
   decompress_chunks False [[0xA1800420]] = (None, [])"
proof (intro conjI)
  show "fst (decompress_chunks le chunks) \<noteq> Some COMP_ERR_DATAMISSING"
    by (rule decompress_never_DATAMISSING)
  show "compress_chunks False zero_Compressor [[0x43434343]] = Some [0xA1800420, 0x10000000]"
    by (simp add: encoder_run)
  show "decompress_chunks False [[0xA1800420, 0x10000000]] = (None, [0x43434343])"
    by (simp add: decoder_run)
  show "decompress_chunks False [[0xA1800420]] = (None, [])"
    by (simp add: decoder_run)
qed


text \<open>C10. The decoder does not latch termination across feed calls. Whatever happened in
  earlier calls (the state \<open>d\<close> is arbitrary, so it may be one in which a terminator has been
  read), a call of \<open>FeedDecompressor\<close> with at least one word runs the token loop on these
  words: its result is the state after some number \<open>n\<close> of ordinary tokens, each decoded by
  \<open>TokenStep\<close>, followed by the terminator step if the loop halted on a terminator. When the
  first token is ordinary, \<open>n\<close> is positive, and the bytes produced grow by the bytes of these
  \<open>n\<close> tokens, at least one each. The call uses up bits, the words it leaves unread are a
  suffix of the words of this call, it leaves some unread only if the run ended on the
  terminator, and closing reports \<open>COMP_ERR_DATAREMAINS\<close> exactly when words of the last call
  are left unread.\<close>

theorem feed_after_terminator:
  "\<exists>n. OrdinaryRun le n (Refill d (w # ws)) \<and>
       (ReadsTerminator le (TokenRun le n (Refill d (w # ws))) \<and>
          internalFeedDecompressor le d (w # ws)
            = TerminatorStep le (TokenRun le n (Refill d (w # ws)))
        \<or> bs_Data (dh_BitStream (TokenRun le n (Refill d (w # ws)))) = [] \<and>
          internalFeedDecompressor le d (w # ws) = TokenRun le n (Refill d (w # ws))) \<and>
       (OrdinaryToken le (Refill d (w # ws)) \<longrightarrow> 0 < n) \<and>
       (dh_BytesLeft d \<le> 4 \<longrightarrow>
          BytesOut (internalFeedDecompressor le d (w # ws))
            = BytesOut d + RunBytes le n (Refill d (w # ws)) \<and>
          n \<le> RunBytes le n (Refill d (w # ws))) \<and>
       BitsAhead (dh_BitStream (internalFeedDecompressor le d (w # ws)))
          < 32 * length (w # ws) + bs_BitsLeft (dh_BitStream d) \<and>
       (\<exists>pre. w # ws = pre @ bs_Data (dh_BitStream (internalFeedDecompressor le d (w # ws)))) \<and>
       (bs_Data (dh_BitStream (internalFeedDecompressor le d (w # ws))) \<noteq> [] \<longrightarrow>
          ReadsTerminator le (TokenRun le n (Refill d (w # ws)))) \<and>
       (dh_Cookie d \<and> \<not> bs_Error (dh_BitStream d) \<longrightarrow>
          (fst (DeleteDecompressor le (internalFeedDecompressor le d (w # ws)))
             = Some COMP_ERR_DATAREMAINS)
          = (bs_Data (dh_BitStream (internalFeedDecompressor le d (w # ws))) \<noteq> []))"
proof -
  let ?d = "Refill d (w # ws)"
  have f: "internalFeedDecompressor le d (w # ws) = TokenLoop le ?d"
    by (simp add: internalFeedDecompressor_def Refill_def)
  from TokenLoop_run [of le ?d] obtain n where n: "OrdinaryRun le n ?d"
    "ReadsTerminator le (TokenRun le n ?d) \<and> TokenLoop le ?d = TerminatorStep le (TokenRun le n ?d)
     \<or> bs_Data (dh_BitStream (TokenRun le n ?d)) = [] \<and> TokenLoop le ?d = TokenRun le n ?d"
    "OrdinaryToken le ?d \<longrightarrow> 0 < n"
    "dh_BytesLeft ?d \<le> 4 \<longrightarrow> BytesOut (TokenLoop le ?d) = BytesOut ?d + RunBytes le n ?d"
    by blast
  have b: "dh_BytesLeft ?d = dh_BytesLeft d" "BytesOut ?d = BytesOut d"
    by (simp_all add: Refill_def BytesOut_def)
  have 1: "BitsAhead (dh_BitStream (TokenLoop le ?d)) < 32 * length (w # ws) + bs_BitsLeft (dh_BitStream d)"
    using TokenLoop_BitsAhead [of le ?d] by (simp add: FeedBitStream_def Refill_def BitsAhead_def)
  have 2: "\<exists>pre. w # ws = pre @ bs_Data (dh_BitStream (TokenLoop le ?d))"
    using TokenLoop_suffix [of ?d le] by (simp add: FeedBitStream_def Refill_def)
  have 3: "bs_Data (dh_BitStream (TokenLoop le ?d)) \<noteq> [] \<longrightarrow> ReadsTerminator le (TokenRun le n ?d)"
    using n(2) by auto
  have 4: "dh_Cookie d \<and> \<not> bs_Error (dh_BitStream d) \<longrightarrow>
      (fst (DeleteDecompressor le (TokenLoop le ?d)) = Some COMP_ERR_DATAREMAINS)
        = (bs_Data (dh_BitStream (TokenLoop le ?d)) \<noteq> [])"
    using TokenLoop_Error [of le ?d] TokenLoop_Cookie [of le ?d]
    by (simp add: DeleteDecompressor_def Let_def FeedBitStream_def Refill_def)
  show ?thesis
    unfolding f
    using n(1,2,3) n(4) b RunBytes_ge [of n le ?d] 1 2 3 4
    by (intro exI [of _ n]) simp
qed

text \<open>A fresh decoder decodes two literals and reads a terminator in its first call, leaving a
  word unread (closing now would report \<open>COMP_ERR_DATAREMAINS\<close>); a second call finds an
  ordinary token, decodes its word (the bytes produced grow from 2 to 5 and a word reaches the
  sink), and closing reports no error.\<close>

theorem feed_after_terminator_witness:
  "OrdinaryToken False (Refill (CreateDecompressor calloc_Decompressor True) [0xA0D08000, 0x12345678]) \<and>
   dh_BytesLeft (CreateDecompressor calloc_Decompressor True) \<le> 4 \<and>
   dh_Cookie (CreateDecompressor calloc_Decompressor True) \<and>
   \<not> bs_Error (dh_BitStream (CreateDecompressor calloc_Decompressor True)) \<and>
   bs_Data (dh_BitStream (internalFeedDecompressor False (CreateDecompressor calloc_Decompressor True) [0xA0D08000, 0x12345678])) = [0x12345678] \<and>
   (\<exists>n. 0 < n \<and> OrdinaryRun False n (Refill (CreateDecompressor calloc_Decompressor True) [0xA0D08000, 0x12345678]) \<and>
        ReadsTerminator False (TokenRun False n (Refill (CreateDecompressor calloc_Decompressor True) [0xA0D08000, 0x12345678])) \<and>
        (internalFeedDecompressor False (CreateDecompressor calloc_Decompressor True) [0xA0D08000, 0x12345678]) = TerminatorStep False (TokenRun False n (Refill (CreateDecompressor calloc_Decompressor True) [0xA0D08000, 0x12345678]))) \<and>
   fst (DeleteDecompressor False (internalFeedDecompressor False (CreateDecompressor calloc_Decompressor True) [0xA0D08000, 0x12345678])) = Some COMP_ERR_DATAREMAINS \<and>
   OrdinaryToken False (Refill (internalFeedDecompressor False (CreateDecompressor calloc_Decompressor True) [0xA0D08000, 0x12345678]) [0x00100000]) \<and>
   dh_BytesLeft (internalFeedDecompressor False (CreateDecompressor calloc_Decompressor True) [0xA0D08000, 0x12345678]) \<le> 4 \<and>
   dh_Cookie (internalFeedDecompressor False (CreateDecompressor calloc_Decompressor True) [0xA0D08000, 0x12345678]) \<and>
   \<not> bs_Error (dh_BitStream (internalFeedDecompressor False (CreateDecompressor calloc_Decompressor True) [0xA0D08000, 0x12345678])) \<and>
   BytesOut (internalFeedDecompressor False (CreateDecompressor calloc_Decompressor True) [0xA0D08000, 0x12345678]) < BytesOut (internalFeedDecompressor False
      (internalFeedDecompressor False (CreateDecompressor calloc_Decompressor True) [0xA0D08000, 0x12345678]) [0x00100000]) \<and>
   BytesOut (internalFeedDecompressor False (CreateDecompressor calloc_Decompressor True) [0xA0D08000, 0x12345678]) = 2 \<and>
   BytesOut (internalFeedDecompressor False
      (internalFeedDecompressor False (CreateDecompressor calloc_Decompressor True) [0xA0D08000, 0x12345678]) [0x00100000]) = 5 \<and>
   dh_Output (internalFeedDecompressor False
      (internalFeedDecompressor False (CreateDecompressor calloc_Decompressor True) [0xA0D08000, 0x12345678]) [0x00100000]) = [0x41424142] \<and>
   bs_Data (dh_BitStream (internalFeedDecompressor False
      (internalFeedDecompressor False (CreateDecompressor calloc_Decompressor True) [0xA0D08000, 0x12345678]) [0x00100000])) = [] \<and>
   fst (DeleteDecompressor False (internalFeedDecompressor False
      (internalFeedDecompressor False (CreateDecompressor calloc_Decompressor True) [0xA0D08000, 0x12345678]) [0x00100000])) = None"
proof -
  let ?d0 = "CreateDecompressor calloc_Decompressor True"
  let ?d1 = "internalFeedDecompressor False ?d0 [0xA0D08000, 0x12345678]"
  let ?d2 = "internalFeedDecompressor False ?d1 [0x00100000]"
  let ?r0 = "Refill ?d0 [0xA0D08000, 0x12345678]"
  let ?r1 = "Refill ?d1 [0x00100000]"
  have o0: "OrdinaryToken False ?r0"
    by (simp add: decoder_run decoder_notions)
  have b0: "dh_BytesLeft ?d0 \<le> 4" and c0: "dh_Cookie ?d0" and e0: "\<not> bs_Error (dh_BitStream ?d0)"
    by (simp_all add: CreateDecompressor_def InitBitStream_d_def)
  have l1: "bs_Data (dh_BitStream ?d1) = [0x12345678]"
    by (simp add: decoder_run)
  have o1: "OrdinaryToken False ?r1"
    by (simp add: decoder_run decoder_notions)
  have b1: "dh_BytesLeft ?d1 \<le> 4" and c1: "dh_Cookie ?d1" and e1: "\<not> bs_Error (dh_BitStream ?d1)"
    by (simp_all add: decoder_run)
  have y1: "BytesOut ?d1 = 2"
    by (simp add: decoder_run decoder_notions)
  have y2: "BytesOut ?d2 = 5"
    by (simp add: decoder_run decoder_notions)
  have u2: "dh_Output ?d2 = [0x41424142]"
    by (simp add: decoder_run)
  have l2: "bs_Data (dh_BitStream ?d2) = []"
    by (simp add: decoder_run)
  from feed_after_terminator [of False ?d0 "0xA0D08000" "[0x12345678]"] obtain n where
    n: "OrdinaryRun False n ?r0"
      "ReadsTerminator False (TokenRun False n ?r0) \<and> ?d1 = TerminatorStep False (TokenRun False n ?r0)
       \<or> bs_Data (dh_BitStream (TokenRun False n ?r0)) = [] \<and> ?d1 = TokenRun False n ?r0"
      "OrdinaryToken False ?r0 \<longrightarrow> 0 < n"
      "bs_Data (dh_BitStream ?d1) \<noteq> [] \<longrightarrow> ReadsTerminator False (TokenRun False n ?r0)"
      "dh_Cookie ?d0 \<and> \<not> bs_Error (dh_BitStream ?d0) \<longrightarrow>
         (fst (DeleteDecompressor False ?d1) = Some COMP_ERR_DATAREMAINS)
           = (bs_Data (dh_BitStream ?d1) \<noteq> [])"
    by blast
  from n(4) l1 have t: "ReadsTerminator False (TokenRun False n ?r0)"
    by simp
  with n(2) l1 have s: "?d1 = TerminatorStep False (TokenRun False n ?r0)"
    by auto
  from n(3) o0 have p: "0 < n"
    by simp
  from n(5) c0 e0 l1 have r1: "fst (DeleteDecompressor False ?d1) = Some COMP_ERR_DATAREMAINS"
    by simp
  from feed_after_terminator [of False ?d1 "0x00100000" "[]"] obtain m where
    m: "OrdinaryToken False ?r1 \<longrightarrow> 0 < m"
      "dh_BytesLeft ?d1 \<le> 4 \<longrightarrow>
         BytesOut ?d2 = BytesOut ?d1 + RunBytes False m ?r1 \<and> m \<le> RunBytes False m ?r1"
      "dh_Cookie ?d1 \<and> \<not> bs_Error (dh_BitStream ?d1) \<longrightarrow>
         (fst (DeleteDecompressor False ?d2) = Some COMP_ERR_DATAREMAINS)
           = (bs_Data (dh_BitStream ?d2) \<noteq> [])"
    by blast
  from m(1,2) o1 b1 have g: "BytesOut ?d1 < BytesOut ?d2"
    by simp
  have r2: "fst (DeleteDecompressor False ?d2) = None"
    by (simp add: decoder_run)
  from p n(1) t s have x: "\<exists>n. 0 < n \<and> OrdinaryRun False n ?r0 \<and>
        ReadsTerminator False (TokenRun False n ?r0) \<and>
        ?d1 = TerminatorStep False (TokenRun False n ?r0)"
    by blast
  from o0 b0 c0 e0 l1 x r1 o1 b1 c1 e1 g y1 y2 u2 l2 r2 show ?thesis
    by blast
qed

text \<open>C7, as amended. Streaming equivalence, for inputs of fewer than \<open>2\<^sup>3\<^sup>0\<close> words: feeding the
  chunks of any partition of the input in turn leaves the encoder, from any state \<open>ch\<close>, in the
  state that feeding the input as one chunk leaves it in, and closing then gives the same
  compressed words as feeding the input as one chunk and closing (\<open>None\<close>, a tree walk that does not end, included:
  either both runs return or neither). In particular the partitions of a 1000-word input into
  chunks of 1 and 999, of 500 and 500, and of 333, 333 and 334 words.\<close>

theorem streaming_equivalence:
  "(length (concat chunks) < 2 ^ 30 \<longrightarrow>
      FeedCompressor_chunks le ch chunks = FeedCompressor_body le ch (concat chunks) \<and>
      compress_chunks le buf chunks = compress_chunks le buf [concat chunks]) \<and>
   (length X = 1000 \<longrightarrow>
      compress_chunks le buf [take 1 X, drop 1 X] = compress_chunks le buf [X] \<and>
      compress_chunks le buf [take 500 X, drop 500 X] = compress_chunks le buf [X] \<and>
      compress_chunks le buf [take 333 X, take 333 (drop 333 X), drop 666 X]
        = compress_chunks le buf [X])"
proof (intro conjI impI)
  assume "length (concat chunks) < 2 ^ 30"
  then show "FeedCompressor_chunks le ch chunks = FeedCompressor_body le ch (concat chunks)"
    by (rule FeedCompressor_chunks_concat)
next
  assume "length (concat chunks) < 2 ^ 30"
  then show "compress_chunks le buf chunks = compress_chunks le buf [concat chunks]"
    by (rule compress_chunks_concat)
next
  assume "length X = 1000"
  then have l: "length X < 2 ^ 30"
    by simp
  show "compress_chunks le buf [take 1 X, drop 1 X] = compress_chunks le buf [X]"
    by (rule compress_chunks_cong [OF _ l]) simp
  show "compress_chunks le buf [take 500 X, drop 500 X] = compress_chunks le buf [X]"
    by (rule compress_chunks_cong [OF _ l]) simp
  have "drop 666 X = drop 333 (drop 333 X)"
    by simp
  then have "concat [take 333 X, take 333 (drop 333 X), drop 666 X] = X"
    by (simp only: concat.simps append_Nil2 append_take_drop_id)
  then show "compress_chunks le buf [take 333 X, take 333 (drop 333 X), drop 666 X]
      = compress_chunks le buf [X]"
    by (rule compress_chunks_cong [OF _ l])
qed

text \<open>Two one-word chunks against one two-word chunk, with the words that come out, and the
  three partitions of a 1000-word input.\<close>

theorem streaming_equivalence_witness:
  "length (concat [[0x43434343], [0x43434343 :: u32]]) < 2 ^ 30 \<and>
   compress_chunks False zero_Compressor [[0x43434343], [0x43434343]]
     = compress_chunks False zero_Compressor [[0x43434343, 0x43434343]] \<and>
   compress_chunks False zero_Compressor [[0x43434343], [0x43434343]]
     = Some [0xA1800520, 0x10000000] \<and>
   length (replicate 1000 (0x43434343 :: u32)) = 1000 \<and>
   compress_chunks False zero_Compressor
       [take 1 (replicate 1000 0x43434343), drop 1 (replicate 1000 0x43434343)]
     = compress_chunks False zero_Compressor [replicate 1000 0x43434343] \<and>
   compress_chunks False zero_Compressor
       [take 500 (replicate 1000 0x43434343), drop 500 (replicate 1000 0x43434343)]
     = compress_chunks False zero_Compressor [replicate 1000 0x43434343] \<and>
   compress_chunks False zero_Compressor
       [take 333 (replicate 1000 0x43434343), take 333 (drop 333 (replicate 1000 0x43434343)),
        drop 666 (replicate 1000 0x43434343)]
     = compress_chunks False zero_Compressor [replicate 1000 0x43434343]"
proof -
  have a: "length (concat [[0x43434343], [0x43434343 :: u32]]) < 2 ^ 30"
    by simp
  have b: "length (replicate 1000 (0x43434343 :: u32)) = 1000"
    by simp
  have c: "compress_chunks False zero_Compressor [[0x43434343], [0x43434343]]
     = Some [0xA1800520, 0x10000000]"
    by (simp add: encoder_run)
  have d: "concat [[0x43434343], [0x43434343 :: u32]] = [0x43434343, 0x43434343]"
    by simp
  note t1 = streaming_equivalence [where chunks = "[[0x43434343], [0x43434343]]" and le = False
      and buf = zero_Compressor and X = "replicate 1000 0x43434343"]
  from t1 a b c d show ?thesis
    by (simp only: simp_thms)
qed

text \<open>C7, as stated, fails: with \<open>2\<^sup>3\<^sup>0\<close> words or more the byte count of a call wraps. A chunk of \<open>2\<^sup>3\<^sup>0\<close> words
  is skipped whole, and of \<open>2\<^sup>3\<^sup>0\<close> + 1 words fed at once only the first is read: the two runs
  on the same input differ.\<close>

theorem streaming_counterexample:
  "compress_chunks False zero_Compressor [replicate (2 ^ 30) 0x43434343, [0x44444444]]
     = Some [0xA2000420, 0x10000000] \<and>
   compress_chunks False zero_Compressor [replicate (2 ^ 30) 0x43434343 @ [0x44444444]]
     = Some [0xA1800420, 0x10000000] \<and>
   compress_chunks False zero_Compressor [replicate (2 ^ 30) 0x43434343, [0x44444444]]
     \<noteq> compress_chunks False zero_Compressor [replicate (2 ^ 30) 0x43434343 @ [0x44444444]]"
proof -
  have "compress_chunks False zero_Compressor [replicate (2 ^ 30) 0x43434343, [0x44444444]]
      = compress_chunks False zero_Compressor [[0x44444444]]"
    by (simp add: compress_chunks_def FeedCompressor_body_wrap_0)
  also have "\<dots> = Some [0xA2000420, 0x10000000]"
    by (simp add: encoder_run)
  finally have a: "compress_chunks False zero_Compressor [replicate (2 ^ 30) 0x43434343, [0x44444444]]
     = Some [0xA2000420, 0x10000000]" .
  have "compress_chunks False zero_Compressor [replicate (2 ^ 30) 0x43434343 @ [0x44444444]]
      = compress_chunks False zero_Compressor [[0x43434343]]"
    by (simp add: compress_chunks_def FeedCompressor_body_wrap_1)
  also have "\<dots> = Some [0xA1800420, 0x10000000]"
    by (simp add: encoder_run)
  finally have b: "compress_chunks False zero_Compressor [replicate (2 ^ 30) 0x43434343 @ [0x44444444]]
     = Some [0xA1800420, 0x10000000]" .
  from a b show ?thesis
    by (simp only: simp_thms) simp
qed


text \<open>C1. The round trip can fail. A call of \<open>FeedCompressor\<close> with \<open>2\<^sup>3\<^sup>0\<close> words computes
  the byte count 0 and reads nothing. So \<open>2\<^sup>3\<^sup>0\<close> words \<open>0x43434343\<close>, fed in one call to an
  encoder in a zero-filled buffer, are compressed to the one word that the empty input gives,
  and this word is decoded to no word at all.\<close>

theorem round_trip_fails:
  "FeedCompressor_body le ch (replicate (2 ^ 30) w) = Some ch \<and>
   compress_chunks False zero_Compressor [replicate (2 ^ 30) 0x43434343] = Some [0x80400000] \<and>
   decompress_chunks False [[0x80400000]] = (None, []) \<and>
   snd (decompress_chunks False [[0x80400000]]) \<noteq> replicate (2 ^ 30) 0x43434343"
proof (intro conjI)
  show "FeedCompressor_body le ch (replicate (2 ^ 30) w) = Some ch"
    using FeedCompressor_body_wrap_0 [of le ch w] by simp
  have "compress_chunks False zero_Compressor [replicate (2 ^ 30) 0x43434343]
      = compress_chunks False zero_Compressor [[]]"
    by (simp add: compress_chunks_def FeedCompressor_body_wrap_0 FeedCompressor_body_def
        numDataBytes_def)
  also have "\<dots> = Some [0x80400000]"
    by (simp add: encoder_run)
  finally show "compress_chunks False zero_Compressor [replicate (2 ^ 30) 0x43434343]
      = Some [0x80400000]" .
  show d: "decompress_chunks False [[0x80400000]] = (None, [])"
    by (simp add: decoder_run)
  show "snd (decompress_chunks False [[0x80400000]]) \<noteq> replicate (2 ^ 30) 0x43434343"
    by (simp add: d)
qed


end
